theory Spec2Isabelle
  imports Complex_Main "HOL-Library.Char_ord" "HOL-Library.List_Lexorder"
begin

section \<open>The value model of \<open>json.h\<close>\<close>

text \<open>
  \<open>enum class Error\<close>. The enumerator \<open>None\<close> is written \<open>Error_None\<close>, since \<open>None\<close> is
  the constructor of \<open>option\<close>.
\<close>

datatype Error =
    Error_None
  | InvalidString
  | InvalidNumber
  | MissedColon
  | MissedComma
  | MissedQuot
  | MissedBracket
  | MissedBrace
  | Undefined

text \<open>\<open>enum class ValueType { Variant, Array, Object }\<close>; the field \<open>Type\<close> of a node.\<close>

datatype ValueType = ValueType_Variant | ValueType_Array | ValueType_Object

text \<open>
  A value of the C++ types \<open>double\<close> and \<open>float\<close>: a finite value is the rational number
  it stands for, the other values are the two infinities (\<open>Infinity True\<close> is the negative
  one) and not-a-number. The sign of a zero is not represented.
\<close>

datatype fp = Finite rat | Infinity bool | NaN

text \<open>
  \<open>std::variant<std::string, int, float, bool, std::nullptr_t>\<close>: one constructor for each
  alternative, in the order of the declaration. The \<open>int\<close> alternative holds a 32-bit signed
  integer, written as an \<open>int\<close> between \<open>INT_MIN\<close> and \<open>INT_MAX\<close>.
\<close>

datatype variant = V_string string | V_int int | V_float fp | V_bool bool | V_nullptr

definition INT_MAX :: int where "INT_MAX = 2147483647"
definition INT_MIN :: int where "INT_MIN = - 2147483648"

text \<open>
  \<open>class Node\<close> has four data members, all present at the same time: \<open>Variant\<close>,
  \<open>Array\<close> (a \<open>std::vector<Node>\<close>), \<open>Object\<close> (a \<open>std::map<std::string, Node>\<close>) and \<open>Type\<close>.
  The map is the list of its entries in iteration order, that is, in increasing key order
  (\<open>std::string\<close> compares bytes as unsigned values, lexicographically, which is the order
  of \<open>string\<close> here).
\<close>

datatype Node =
  Node (Variant: variant) (Array: "Node list") (Object: "(string \<times> Node) list") (Type: ValueType)

type_synonym Array_t = "Node list"
type_synonym Object_t = "(string \<times> Node) list"

subsection \<open>The operations of \<open>std::map\<close> that the class uses\<close>

text \<open>\<open>m[k] = v\<close>: the entry of \<open>k\<close> is replaced, or inserted at its place in key order.\<close>

fun map_assign :: "string \<Rightarrow> Node \<Rightarrow> Object_t \<Rightarrow> Object_t" where
  "map_assign k v [] = [(k, v)]"
| "map_assign k v ((k', v') # m) =
     (if k < k' then (k, v) # (k', v') # m
      else if k = k' then (k, v) # m
      else (k', v') # map_assign k v m)"

text \<open>\<open>m.find(k)\<close>, as an option.\<close>

fun map_find :: "string \<Rightarrow> Object_t \<Rightarrow> Node option" where
  "map_find k [] = None"
| "map_find k ((k', v') # m) = (if k = k' then Some v' else map_find k m)"

subsection \<open>Constructors\<close>

text \<open>
  A default-constructed \<open>std::variant\<close> holds its first alternative, value-initialised:
  the empty string. \<open>Node() : Type(ValueType::Object) {}\<close> leaves the three payloads
  default-constructed.
\<close>

definition Node_default :: Node where
  "Node_default = Node (V_string []) [] [] ValueType_Object"

text \<open>\<open>Node(std::string Val)\<close>, \<open>Node(int Val)\<close>, \<open>Node(float Val)\<close>, \<open>Node(bool Val)\<close>,
  \<open>Node(std::nullptr_t Val)\<close>: \<open>Variant(Val), Type(ValueType::Variant)\<close>.\<close>

definition Node_scalar :: "variant \<Rightarrow> Node" where
  "Node_scalar Val = Node Val [] [] ValueType_Variant"

text \<open>\<open>Node(const Array_t& Arr) : Array(Arr), Type(ValueType::Array) {}\<close>, and the same from
  an initializer list.\<close>

definition Node_array :: "Array_t \<Rightarrow> Node" where
  "Node_array Arr = Node (V_string []) Arr [] ValueType_Array"

subsection \<open>Assignment operators\<close>

text \<open>
  Every scalar \<open>operator=\<close> is \<open>Variant = Val; Type = ValueType::Variant;\<close>
  (the \<open>double\<close> overload converts to \<open>float\<close> first; the caller passes the converted value).
\<close>

definition assign_scalar :: "Node \<Rightarrow> variant \<Rightarrow> Node" where
  "assign_scalar n Val = Node Val (Array n) (Object n) ValueType_Variant"

text \<open>\<open>operator=(const Array_t& Arr)\<close>: \<open>Array = Arr; Type = ValueType::Array;\<close>. The
  initializer-list overload clears the array and assigns the list, with the same result.\<close>

definition assign_array :: "Node \<Rightarrow> Array_t \<Rightarrow> Node" where
  "assign_array n Arr = Node (Variant n) Arr (Object n) ValueType_Array"

subsection \<open>Indexing operators\<close>

text \<open>
  \<open>Node& operator[](int Index)\<close>:
  \<^verbatim>\<open>
    if (Type != ValueType::Array) { Object.clear(); Type = ValueType::Array; }
    if (Index >= Array.size()) Array.emplace_back();
    return Array[Index];
  \<close>
  The comparison converts \<open>Index\<close> to the unsigned \<open>size_t\<close>, so a negative index compares
  greater than every size. The result is the node after the call together with the
  position the returned reference designates; \<open>None\<close> is an access outside the vector
  (\<open>Array[Index]\<close> with \<open>Index\<close> not below the size, which C++ leaves undefined).
\<close>

definition coerce_array :: "Node \<Rightarrow> Node" where
  "coerce_array n =
     (if Type n \<noteq> ValueType_Array then Node (Variant n) (Array n) [] ValueType_Array else n)"

definition subscript_int :: "Node \<Rightarrow> int \<Rightarrow> Node \<times> nat option" where
  "subscript_int n Index =
     (let n1 = coerce_array n;
          n2 = (if Index < 0 \<or> int (length (Array n1)) \<le> Index
                then Node (Variant n1) (Array n1 @ [Node_default]) (Object n1) (Type n1)
                else n1)
      in (n2, if 0 \<le> Index \<and> Index < int (length (Array n2)) then Some (nat Index) else None))"

text \<open>Writing a node through the reference the integer index returned: \<open>n[Index] = v\<close>.\<close>

definition write_int :: "Node \<Rightarrow> int \<Rightarrow> Node \<Rightarrow> Node option" where
  "write_int n Index v =
     (case subscript_int n Index of
        (n', Some i) \<Rightarrow> Some (Node (Variant n') ((Array n')[i := v]) (Object n') (Type n'))
      | (n', None) \<Rightarrow> None)"

text \<open>Reading the node the integer index designates: the node after the call, and the
  element.\<close>

definition read_int :: "Node \<Rightarrow> int \<Rightarrow> (Node \<times> Node) option" where
  "read_int n Index =
     (case subscript_int n Index of
        (n', Some i) \<Rightarrow> Some (n', Array n' ! i)
      | (n', None) \<Rightarrow> None)"

text \<open>
  \<open>Node& operator[](const char* Key)\<close> and \<open>operator[](const std::string& Key)\<close>:
  \<^verbatim>\<open>
    if (Type != ValueType::Object) { Array.clear(); Type = ValueType::Object; }
    return Object[Key];
  \<close>
  \<open>Object[Key]\<close> inserts a default-constructed node when the key is absent.
\<close>

definition coerce_object :: "Node \<Rightarrow> Node" where
  "coerce_object n =
     (if Type n \<noteq> ValueType_Object then Node (Variant n) [] (Object n) ValueType_Object else n)"

definition subscript_key :: "Node \<Rightarrow> string \<Rightarrow> Node \<times> Node" where
  "subscript_key n Key =
     (let n1 = coerce_object n in
      case map_find Key (Object n1) of
        Some v \<Rightarrow> (n1, v)
      | None \<Rightarrow>
          (Node (Variant n1) (Array n1) (map_assign Key Node_default (Object n1)) (Type n1),
           Node_default))"

text \<open>Writing a node through the reference the key index returned: \<open>n[Key] = v\<close>.\<close>

definition write_key :: "Node \<Rightarrow> string \<Rightarrow> Node \<Rightarrow> Node" where
  "write_key n Key v =
     (let n1 = fst (subscript_key n Key)
      in Node (Variant n1) (Array n1) (map_assign Key v (Object n1)) (Type n1))"

subsection \<open>Typed access\<close>

text \<open>
  The seven specialisations of \<open>Get\<close> and \<open>Is\<close>, indexed by the type argument.
  \<open>std::get<T>(Variant)\<close> throws \<open>std::bad_variant_access\<close> when the variant holds another
  alternative; \<open>Get<Object_t>\<close> and \<open>Get<Array_t>\<close> return the member.
\<close>

datatype kind = T_string | T_int | T_float | T_bool | T_nullptr | T_Object | T_Array

datatype payload =
    P_string string | P_int int | P_float fp | P_bool bool | P_nullptr
  | P_Object Object_t | P_Array Array_t

datatype exn = bad_variant_access

fun Get :: "kind \<Rightarrow> Node \<Rightarrow> exn + payload" where
  "Get T_string n = (case Variant n of V_string s \<Rightarrow> Inr (P_string s) | _ \<Rightarrow> Inl bad_variant_access)"
| "Get T_int n = (case Variant n of V_int i \<Rightarrow> Inr (P_int i) | _ \<Rightarrow> Inl bad_variant_access)"
| "Get T_float n = (case Variant n of V_float f \<Rightarrow> Inr (P_float f) | _ \<Rightarrow> Inl bad_variant_access)"
| "Get T_bool n = (case Variant n of V_bool b \<Rightarrow> Inr (P_bool b) | _ \<Rightarrow> Inl bad_variant_access)"
| "Get T_nullptr n = (case Variant n of V_nullptr \<Rightarrow> Inr P_nullptr | _ \<Rightarrow> Inl bad_variant_access)"
| "Get T_Object n = Inr (P_Object (Object n))"
| "Get T_Array n = Inr (P_Array (Array n))"

text \<open>\<open>std::holds_alternative<T>(Variant)\<close>, for the five scalar type arguments.\<close>

definition holds_alternative :: "kind \<Rightarrow> variant \<Rightarrow> bool" where
  "holds_alternative T v =
     (case v of
        V_string s \<Rightarrow> T = T_string
      | V_int i \<Rightarrow> T = T_int
      | V_float f \<Rightarrow> T = T_float
      | V_bool b \<Rightarrow> T = T_bool
      | V_nullptr \<Rightarrow> T = T_nullptr)"

fun Is :: "kind \<Rightarrow> Node \<Rightarrow> bool" where
  "Is T_Object n = (Type n = ValueType_Object)"
| "Is T_Array n = (Type n = ValueType_Array)"
| "Is T n = (Type n = ValueType_Variant \<and> holds_alternative T (Variant n))"

section \<open>The serializer\<close>

abbreviation (input) QUOTE :: char where "QUOTE \<equiv> CHR 0x22"
abbreviation (input) NEWLINE :: char where "NEWLINE \<equiv> CHR 0x0A"
abbreviation (input) TAB :: char where "TAB \<equiv> CHR 0x09"
abbreviation (input) NUL :: char where "NUL \<equiv> CHR 0x00"

text \<open>\<open>Stream << V\<close> for an \<open>int\<close>: the decimal digits, after a minus sign when negative.\<close>

definition digit_char :: "nat \<Rightarrow> char" where
  "digit_char d = ''0123456789'' ! d"

fun show_nat :: "nat \<Rightarrow> string" where
  "show_nat n = (if n < 10 then [digit_char n] else show_nat (n div 10) @ [digit_char (n mod 10)])"

declare show_nat.simps [simp del]

definition show_int :: "int \<Rightarrow> string" where
  "show_int i = (if i < 0 then CHR ''-'' # show_nat (nat (- i)) else show_nat (nat i))"

text \<open>
  The five overloads of \<open>Save\<close>. The text of a \<open>float\<close> is what the stream library writes
  for it; that formatting is not code of this class and is the parameter \<open>fmt\<close>.
\<close>

fun Save :: "(fp \<Rightarrow> string) \<Rightarrow> variant \<Rightarrow> string" where
  "Save fmt (V_string V) = QUOTE # V @ [QUOTE]"
| "Save fmt (V_int V) = show_int V"
| "Save fmt (V_float V) = fmt V"
| "Save fmt (V_bool V) = (if V then ''true'' else ''false'')"
| "Save fmt V_nullptr = ''null''"

text \<open>The lambda \<open>Tabs\<close>: one tab for each level.\<close>

definition Tabs :: "nat \<Rightarrow> string" where
  "Tabs Level = replicate Level TAB"

text \<open>
  \<open>operator<<(std::ostream&, const Node&)\<close>. The static counter \<open>Level\<close> is the second
  argument: the operator increments it before the members of an object and decrements it
  after them, so every call returns with the value it was entered with, and the first call
  of a program enters with 0. The elements of an array are written by the operator itself
  at the level of the array. \<open>std::endl\<close> writes a newline.
\<close>

fun print :: "(fp \<Rightarrow> string) \<Rightarrow> nat \<Rightarrow> Node \<Rightarrow> string"
  and print_members :: "(fp \<Rightarrow> string) \<Rightarrow> nat \<Rightarrow> Object_t \<Rightarrow> string"
  and print_elements :: "(fp \<Rightarrow> string) \<Rightarrow> nat \<Rightarrow> Array_t \<Rightarrow> string" where
  "print fmt Level (Node v arr obj ty) =
     (case ty of
        ValueType_Object \<Rightarrow>
          (if Level \<noteq> 0 then [NEWLINE] else []) @ Tabs Level @ CHR ''{'' # NEWLINE #
          print_members fmt (Suc Level) obj @ Tabs Level @ ''}''
      | ValueType_Variant \<Rightarrow> Save fmt v
      | ValueType_Array \<Rightarrow> CHR ''['' # print_elements fmt Level arr @ '']'')
     @ (if Level = 0 then [NEWLINE] else [])"
| "print_members fmt Level [] = []"
| "print_members fmt Level ((k, N) # ms) =
     Tabs Level @ QUOTE # k @ QUOTE # '': '' @ print fmt Level N
     @ (if ms \<noteq> [] then '','' else []) @ NEWLINE # print_members fmt Level ms"
| "print_elements fmt Level [] = []"
| "print_elements fmt Level (E # es) =
     print fmt Level E @ (if es = [] then [] else '', '') @ print_elements fmt Level es"

section \<open>The parser\<close>

subsection \<open>The cursor\<close>

text \<open>
  The parser reads the buffer of a \<open>std::string\<close> through \<open>const char** Position\<close>. The
  cursor is the text from the position to the end of the string; behind the text the buffer
  holds the terminator, so reading at the end of the text gives \<open>NUL\<close>. Every function
  except \<open>ExtractString\<close> advances only past a character it has compared with a character
  other than \<open>NUL\<close>, so only \<open>ExtractString\<close> can step behind the terminator.
\<close>

definition peek :: "string \<Rightarrow> char" where
  "peek c = (case c of [] \<Rightarrow> NUL | x # xs \<Rightarrow> x)"

text \<open>
  \<open>std::isspace\<close> and \<open>std::isdigit\<close> in the C locale. The code passes a \<open>char\<close>; a byte
  above \<open>0x7F\<close> is neither a space nor a digit. The comparisons \<open>>= '0'\<close> and \<open><= '9'\<close> of
  \<open>ParseNumber\<close> select the same ten characters as \<open>std::isdigit\<close>.
\<close>

definition isspace :: "char \<Rightarrow> bool" where
  "isspace x \<longleftrightarrow> x = CHR '' '' \<or> x = TAB \<or> x = NEWLINE \<or> x = CHR 0x0B \<or> x = CHR 0x0C \<or> x = CHR 0x0D"

definition isdigit :: "char \<Rightarrow> bool" where
  "isdigit x \<longleftrightarrow> CHR ''0'' \<le> x \<and> x \<le> CHR ''9''"

text \<open>\<open>**Position - '0'\<close>.\<close>

definition digit_val :: "char \<Rightarrow> int" where
  "digit_val x = int (of_char x) - 48"

text \<open>The outcomes the language leaves undefined.\<close>

datatype ub = buffer_overread | signed_overflow | conversion_out_of_range

text \<open>\<open>SkipSpace\<close>: \<open>while (std::isspace(**Position)) (*Position)++;\<close>.\<close>

fun SkipSpace :: "string \<Rightarrow> string" where
  "SkipSpace [] = []"
| "SkipSpace (x # xs) = (if isspace x then SkipSpace xs else x # xs)"

text \<open>
  \<open>ExtractString\<close>: \<open>while (**Position != '"') { S += **Position; (*Position)++; }\<close>.
  The loop does not test for the terminator: with no quote left in the text it appends the
  terminator and reads behind the buffer.
\<close>

fun ExtractString :: "string \<Rightarrow> ub + (string \<times> string)" where
  "ExtractString [] = Inl buffer_overread"
| "ExtractString (x # xs) =
     (if x = QUOTE then Inr ([], x # xs)
      else case ExtractString xs of Inl u \<Rightarrow> Inl u | Inr (S, c) \<Rightarrow> Inr (x # S, c))"

text \<open>
  \<open>ExtractInt\<close>: \<open>int N = 0; while (std::isdigit(**Position)) N = N * 10 + (*(*Position)++ - '0');\<close>.
  \<open>N\<close> is never negative, and the sum exceeds \<open>INT_MAX\<close> whenever the product does.
\<close>

fun ExtractInt_loop :: "int \<Rightarrow> string \<Rightarrow> ub + (int \<times> string)" where
  "ExtractInt_loop N [] = Inr (N, [])"
| "ExtractInt_loop N (x # xs) =
     (if isdigit x
      then (if INT_MAX < N * 10 + digit_val x then Inl signed_overflow
            else ExtractInt_loop (N * 10 + digit_val x) xs)
      else Inr (N, x # xs))"

definition ExtractInt :: "string \<Rightarrow> ub + (int \<times> string)" where
  "ExtractInt c = ExtractInt_loop 0 c"

subsection \<open>Arithmetic on \<open>double\<close>\<close>

text \<open>
  \<open>double\<close> is IEEE 754 binary64 and \<open>float\<close> binary32: an operation gives the exact result
  rounded to the nearest value of the format, ties to the even significand. A format is its
  precision \<open>p\<close> and its least and greatest exponents.
\<close>

fun bits :: "nat \<Rightarrow> nat" where
  "bits n = (if n = 0 then 0 else Suc (bits (n div 2)))"

declare bits.simps [simp del]

definition pow2 :: "int \<Rightarrow> rat" where
  "pow2 k = (if 0 \<le> k then 2 ^ nat k else 1 / 2 ^ nat (- k))"

text \<open>The exponent of a positive rational: the greatest \<open>e\<close> with \<open>2\<^sup>e \<le> x\<close>.\<close>

definition ilog2 :: "rat \<Rightarrow> int" where
  "ilog2 x =
     (if 1 \<le> x then int (bits (nat \<lfloor>x\<rfloor>)) - 1
      else - int (bits (nat (\<lceil>1 / x\<rceil> - 1))))"

definition round_half_even :: "rat \<Rightarrow> int" where
  "round_half_even q =
     (let f = \<lfloor>q\<rfloor>; r = q - of_int f
      in if r < 1 / 2 then f else if 1 / 2 < r then f + 1 else if even f then f else f + 1)"

definition round_fmt :: "nat \<Rightarrow> int \<Rightarrow> int \<Rightarrow> rat \<Rightarrow> fp" where
  "round_fmt p emin emax x =
     (if x = 0 then Finite 0
      else let e = max (ilog2 \<bar>x\<bar>) emin;
               ulp = pow2 (e - int p + 1);
               y = of_int (round_half_even (\<bar>x\<bar> / ulp)) * ulp
           in if pow2 (emax + 1) \<le> y then Infinity (x < 0)
              else Finite (if x < 0 then - y else y))"

definition to_double :: "rat \<Rightarrow> fp" where
  "to_double x = round_fmt 53 (- 1022) 1023 x"

text \<open>\<open>(float)Number\<close>.\<close>

fun to_float :: "fp \<Rightarrow> fp" where
  "to_float (Finite x) = round_fmt 24 (- 126) 127 x"
| "to_float d = d"

text \<open>The conversion of an \<open>int\<close> to \<open>double\<close> is exact.\<close>

definition double_of_int :: "int \<Rightarrow> fp" where
  "double_of_int i = Finite (of_int i)"

fun fp_add :: "fp \<Rightarrow> fp \<Rightarrow> fp" where
  "fp_add (Finite a) (Finite b) = to_double (a + b)"
| "fp_add NaN d = NaN"
| "fp_add d NaN = NaN"
| "fp_add (Infinity s) (Infinity t) = (if s = t then Infinity s else NaN)"
| "fp_add (Infinity s) (Finite b) = Infinity s"
| "fp_add (Finite a) (Infinity t) = Infinity t"

fun fp_mul :: "fp \<Rightarrow> fp \<Rightarrow> fp" where
  "fp_mul (Finite a) (Finite b) = to_double (a * b)"
| "fp_mul NaN d = NaN"
| "fp_mul d NaN = NaN"
| "fp_mul (Infinity s) (Infinity t) = Infinity (s \<noteq> t)"
| "fp_mul (Infinity s) (Finite b) = (if b = 0 then NaN else Infinity (s \<noteq> (b < 0)))"
| "fp_mul (Finite a) (Infinity t) = (if a = 0 then NaN else Infinity ((a < 0) \<noteq> t))"

text \<open>\<open>pow(10, Exponent)\<close> of the C library, taken as the correctly rounded power.\<close>

definition pow10 :: "int \<Rightarrow> fp" where
  "pow10 Exponent =
     to_double (if 0 \<le> Exponent then 10 ^ nat Exponent else 1 / 10 ^ nat (- Exponent))"

text \<open>\<open>round(Number) == Number\<close>: true of the integers and the infinities, false of \<open>NaN\<close>.\<close>

fun is_integral :: "fp \<Rightarrow> bool" where
  "is_integral (Finite x) = (of_int \<lfloor>x\<rfloor> = x)"
| "is_integral (Infinity s) = True"
| "is_integral NaN = False"

text \<open>\<open>(int)Number\<close>: the value without its fraction; undefined when that is no \<open>int\<close>.\<close>

fun int_of_double :: "fp \<Rightarrow> ub + int" where
  "int_of_double (Finite x) =
     (let t = (if x < 0 then \<lceil>x\<rceil> else \<lfloor>x\<rfloor>)
      in if INT_MIN \<le> t \<and> t \<le> INT_MAX then Inr t else Inl conversion_out_of_range)"
| "int_of_double d = Inl conversion_out_of_range"

text \<open>
  \<open>ExtractDec\<close>:
  \<open>double N = 0.0, F = 0.1; while (std::isdigit(**Position)) { N = N + (*(*Position)++ - '0') * F; F *= 0.1; }\<close>.
\<close>

fun ExtractDec_loop :: "fp \<Rightarrow> fp \<Rightarrow> string \<Rightarrow> fp \<times> string" where
  "ExtractDec_loop N F [] = (N, [])"
| "ExtractDec_loop N F (x # xs) =
     (if isdigit x
      then ExtractDec_loop (fp_add N (fp_mul (double_of_int (digit_val x)) F))
             (fp_mul F (to_double (1 / 10))) xs
      else (N, x # xs))"

definition ExtractDec :: "string \<Rightarrow> fp \<times> string" where
  "ExtractDec c = ExtractDec_loop (Finite 0) (to_double (1 / 10)) c"

subsection \<open>The scalar productions\<close>

text \<open>
  A production works on the node it is called on and on the cursor, and returns an
  \<open>Error\<close>: the result is the error, the node and the cursor after the call, or an
  undefined outcome.
\<close>

type_synonym result = "ub + (Error \<times> Node \<times> string)"

definition set_Variant :: "variant \<Rightarrow> Node \<Rightarrow> Node" where
  "set_Variant v n = Node v (Array n) (Object n) (Type n)"

definition set_Array :: "Array_t \<Rightarrow> Node \<Rightarrow> Node" where
  "set_Array a n = Node (Variant n) a (Object n) (Type n)"

definition set_Object :: "Object_t \<Rightarrow> Node \<Rightarrow> Node" where
  "set_Object ob n = Node (Variant n) (Array n) ob (Type n)"

definition set_Type :: "ValueType \<Rightarrow> Node \<Rightarrow> Node" where
  "set_Type t n = Node (Variant n) (Array n) (Object n) t"

definition ParseString :: "Node \<Rightarrow> string \<Rightarrow> result" where
  "ParseString n c =
     (if peek c = QUOTE then
        (case ExtractString (tl c) of
           Inl u \<Rightarrow> Inl u
         | Inr (S, c1) \<Rightarrow>
             (if peek c1 \<noteq> QUOTE then Inr (MissedQuot, set_Variant (V_string S) n, c1)
              else Inr (Error_None, set_Type ValueType_Variant (set_Variant (V_string S) n), tl c1)))
      else Inr (Undefined, n, c))"

text \<open>
  \<open>std::equal(*Position, *Position + 4, "true")\<close> compares character by character; a text
  shorter than the literal differs from it at the terminator at the latest.
\<close>

definition ParseBool :: "Node \<Rightarrow> string \<Rightarrow> result" where
  "ParseBool n c =
     (let IsTrue = (take 4 c = ''true''); IsFalse = (take 5 c = ''false'')
      in if IsTrue \<or> IsFalse
         then Inr (Error_None, set_Type ValueType_Variant (set_Variant (V_bool IsTrue) n),
                   drop (if IsTrue then 4 else 5) c)
         else Inr (Undefined, n, c))"

definition ParseNull :: "Node \<Rightarrow> string \<Rightarrow> result" where
  "ParseNull n c =
     (if take 4 c = ''null''
      then Inr (Error_None, set_Type ValueType_Variant (set_Variant V_nullptr n), drop 4 c)
      else Inr (Undefined, n, c))"

text \<open>
  \<open>ParseNumber\<close>, in the steps of its body: the fraction, the exponent, the value with
  its sign (\<open>number_value\<close>, the \<open>double Number\<close> before the final test) and the choice
  of the stored alternative. A step that returns \<open>InvalidNumber\<close> leaves the node as it
  was and the cursor where the digit was missing (\<open>Inl\<close> of a cursor).
\<close>

definition number_fraction :: "fp \<Rightarrow> string \<Rightarrow> string + (fp \<times> string)" where
  "number_fraction Number c =
     (if peek c = CHR ''.'' then
        (if \<not> isdigit (peek (tl c)) then Inl (tl c)
         else case ExtractDec (tl c) of (d, c1) \<Rightarrow> Inr (fp_add Number d, c1))
      else Inr (Number, c))"

definition number_exponent :: "fp \<Rightarrow> string \<Rightarrow> ub + (string + (fp \<times> string))" where
  "number_exponent Number c =
     (if peek c = CHR ''e'' \<or> peek c = CHR ''E'' then
        (let ExpNeg = (peek (tl c) = CHR ''-'');
             c1 = (if ExpNeg then tl (tl c) else tl c)
         in if \<not> isdigit (peek c1) then Inr (Inl c1)
            else case ExtractInt c1 of
                   Inl u \<Rightarrow> Inl u
                 | Inr (Exponent, c2) \<Rightarrow>
                     Inr (Inr (fp_mul Number (pow10 (Exponent * (if ExpNeg then - 1 else 1))), c2)))
      else Inr (Inr (Number, c)))"

definition number_store :: "Node \<Rightarrow> fp \<Rightarrow> string \<Rightarrow> result" where
  "number_store n Number c =
     (if is_integral Number then
        (case int_of_double Number of
           Inl u \<Rightarrow> Inl u
         | Inr i \<Rightarrow> Inr (Error_None, set_Variant (V_int i) (set_Type ValueType_Variant n), c))
      else Inr (Error_None, set_Variant (V_float (to_float Number)) (set_Type ValueType_Variant n), c))"

definition number_value :: "string \<Rightarrow> ub + (string + (fp \<times> string))" where
  "number_value c =
     (let Neg = (peek c = CHR ''-'') in
      case ExtractInt (if Neg then tl c else c) of
        Inl u \<Rightarrow> Inl u
      | Inr (i, c1) \<Rightarrow>
          (case number_fraction (double_of_int i) c1 of
             Inl c2 \<Rightarrow> Inr (Inl c2)
           | Inr (Number, c2) \<Rightarrow>
               (case number_exponent Number c2 of
                  Inl u \<Rightarrow> Inl u
                | Inr (Inl c3) \<Rightarrow> Inr (Inl c3)
                | Inr (Inr (Number', c3)) \<Rightarrow>
                    Inr (Inr (fp_mul Number' (double_of_int (if Neg then - 1 else 1)), c3)))))"

definition ParseNumber :: "Node \<Rightarrow> string \<Rightarrow> result" where
  "ParseNumber n c =
     (if peek c = CHR ''-'' \<or> isdigit (peek c) then
        (case number_value c of
           Inl u \<Rightarrow> Inl u
         | Inr (Inl c1) \<Rightarrow> Inr (InvalidNumber, n, c1)
         | Inr (Inr (Number, c1)) \<Rightarrow> number_store n Number c1)
      else Inr (Undefined, n, c))"

subsection \<open>The dispatcher and the two container productions\<close>

text \<open>
  \<open>Parse\<close> declares
  \<^verbatim>\<open>
    Error Err;
    static auto Check = [&]() { return Err != Error::None && Err != Error::Undefined; };
  \<close>
  The closure is a static local: it is initialised once, by the first activation of
  \<open>Parse\<close> in the program, and it holds a reference to the variable \<open>Err\<close> of that
  activation. Every later activation calls the same closure, so inside the nested
  activations that \<open>ParseObject\<close> and \<open>ParseArray\<close> start, \<open>Check()\<close> tests the \<open>Err\<close> of the
  first activation and not their own. The first activation assigns its \<open>Err\<close> only between
  the productions, so the variable keeps its value while a nested activation runs.

  The first argument of \<open>Parse\<close> says which activation it is: \<open>None\<close> for the first one,
  whose own \<open>Err\<close> the closure reads, and \<open>Some e\<close> for a nested one, where \<open>e\<close> is the value
  the \<open>Err\<close> of the first activation holds meanwhile. (After the first activation has
  returned the reference dangles; a later top-level call is outside this model.)
\<close>

definition captured :: "Error option \<Rightarrow> Error \<Rightarrow> Error" where
  "captured outer Err = (case outer of None \<Rightarrow> Err | Some e \<Rightarrow> e)"

definition Check :: "Error option \<Rightarrow> Error \<Rightarrow> bool" where
  "Check outer Err \<longleftrightarrow> captured outer Err \<noteq> Error_None \<and> captured outer Err \<noteq> Undefined"

text \<open>
  The first four productions of \<open>Parse\<close>, each followed by \<open>if (Check()) return Err;\<close>.
  \<open>Inl r\<close>: \<open>Parse\<close> returns \<open>r\<close>; \<open>Inr (Err, n, c)\<close>: the state after \<open>ParseNumber\<close>, from
  which \<open>Parse\<close> goes on.
\<close>

definition scalar_productions :: "Error option \<Rightarrow> Node \<Rightarrow> string \<Rightarrow> result + (Error \<times> Node \<times> string)" where
  "scalar_productions outer n c =
     (case ParseString n c of
        Inl u \<Rightarrow> Inl (Inl u)
      | Inr (e1, n1, c1) \<Rightarrow>
         (if Check outer e1 then Inl (Inr (e1, n1, c1))
          else (case ParseBool n1 c1 of
            Inl u \<Rightarrow> Inl (Inl u)
          | Inr (e2, n2, c2) \<Rightarrow>
             (if Check outer e2 then Inl (Inr (e2, n2, c2))
              else (case ParseNull n2 c2 of
                Inl u \<Rightarrow> Inl (Inl u)
              | Inr (e3, n3, c3) \<Rightarrow>
                 (if Check outer e3 then Inl (Inr (e3, n3, c3))
                  else (case ParseNumber n3 c3 of
                    Inl u \<Rightarrow> Inl (Inl u)
                  | Inr (e4, n4, c4) \<Rightarrow>
                     (if Check outer e4 then Inl (Inr (e4, n4, c4))
                      else Inr (e4, n4, c4)))))))))"

text \<open>
  The three mutually recursive member functions and the two \<open>while\<close> loops, as one
  function on the call to run. \<open>ParseObject\<close>, \<open>ParseArray\<close> and their loops carry the
  value that the \<open>Err\<close> of the first activation holds while they run. A call that does not
  return has the value \<open>None\<close>.

  The loop of \<open>ParseObject\<close> (\<open>Call_ObjectLoop\<close>, entered at the test of the \<open>while\<close>):
  \<^verbatim>\<open>
    while (**Position != 0) {
      SkipSpace(Position);
      if (**Position == '}') { Type = ValueType::Object; return Error::None; }
      if (**Position == '"') {
        (*Position)++; std::string Name = ExtractString(Position);
        if (**Position != '"') { Object.clear(); return Error::MissedQuot; }
        (*Position)++; SkipSpace(Position);
        if (**Position != ':') { Object.clear(); return Error::MissedColon; }
        (*Position)++; SkipSpace(Position);
        Node New; Error Err = New.Parse(Position);
        if (Err != Error::None) { Object.clear(); return Err; }
        Type = ValueType::Object; Object[Name] = New;
        SkipSpace(Position);
        if (**Position == '}') { (*Position)++;  return Error::None; }
        if (**Position != ',') { Object.clear(); return Error::MissedComma; }
        (*Position)++;
      }
    }
    return Error::Undefined;
  \<close>
  The loop of \<open>ParseArray\<close> (\<open>Call_ArrayLoop\<close>):
  \<^verbatim>\<open>
    while (**Position != 0) {
      SkipSpace(Position);
      if (Array.size() == 0 && **Position == ']') { Type == ValueType::Array; return Error::None; }
      Node New; Error Err = New.Parse(Position);
      if (Err != Error::None) {Array.clear(); return Err; }
      Type = ValueType::Array; Array.push_back(New);
      SkipSpace(Position);
      if (**Position == ']') { (*Position)++; return Error::None; }
      if (**Position != ',') { Array.clear(); return Error::MissedComma;}
      (*Position)++;
    }
    return Error::Undefined;
  \<close>
  The statement \<open>Type == ValueType::Array;\<close> is a comparison whose value is dropped.
\<close>

datatype call =
    Call_Parse "Error option" Node string
  | Call_ParseObject Error Node string
  | Call_ObjectLoop Error Node string
  | Call_ParseArray Error Node string
  | Call_ArrayLoop Error Node string

partial_function (option) exec :: "call \<Rightarrow> result option" where
  "exec cl =
     (case cl of
        Call_Parse outer n c \<Rightarrow>
          (case scalar_productions outer n (SkipSpace c) of
             Inl r \<Rightarrow> Some r
           | Inr (e4, n4, c4) \<Rightarrow>
               Option.bind (exec (Call_ParseObject (captured outer e4) n4 c4)) (\<lambda>r5.
                 case r5 of
                   Inl u \<Rightarrow> Some (Inl u)
                 | Inr (e5, n5, c5) \<Rightarrow>
                     if Check outer e5 then Some (Inr (e5, n5, c5))
                     else Option.bind (exec (Call_ParseArray (captured outer e5) n5 c5)) (\<lambda>r6.
                       case r6 of
                         Inl u \<Rightarrow> Some (Inl u)
                       | Inr (e6, n6, c6) \<Rightarrow>
                           if Check outer e6 then Some (Inr (e6, n6, c6))
                           else Some (Inr (Error_None, n6, c6)))))
      | Call_ParseObject e0 n c \<Rightarrow>
          if peek c = CHR ''{'' then exec (Call_ObjectLoop e0 n (tl c))
          else Some (Inr (Undefined, n, c))
      | Call_ObjectLoop e0 n c \<Rightarrow>
          if peek c = NUL then Some (Inr (Undefined, n, c))
          else if peek (SkipSpace c) = CHR ''}''
            then Some (Inr (Error_None, set_Type ValueType_Object n, SkipSpace c))
          else if peek (SkipSpace c) = QUOTE then
            (case ExtractString (tl (SkipSpace c)) of
               Inl u \<Rightarrow> Some (Inl u)
             | Inr (Name, c1) \<Rightarrow>
                 if peek c1 \<noteq> QUOTE then Some (Inr (MissedQuot, set_Object [] n, c1))
                 else if peek (SkipSpace (tl c1)) \<noteq> CHR '':''
                   then Some (Inr (MissedColon, set_Object [] n, SkipSpace (tl c1)))
                 else Option.bind
                   (exec (Call_Parse (Some e0) Node_default (SkipSpace (tl (SkipSpace (tl c1)))))) (\<lambda>r.
                     case r of
                       Inl u \<Rightarrow> Some (Inl u)
                     | Inr (Err, New, c2) \<Rightarrow>
                         if Err \<noteq> Error_None then Some (Inr (Err, set_Object [] n, c2))
                         else if peek (SkipSpace c2) = CHR ''}''
                           then Some (Inr (Error_None,
                                  set_Object (map_assign Name New (Object n)) (set_Type ValueType_Object n),
                                  tl (SkipSpace c2)))
                         else if peek (SkipSpace c2) \<noteq> CHR '',''
                           then Some (Inr (MissedComma,
                                  set_Object [] (set_Type ValueType_Object n), SkipSpace c2))
                         else exec (Call_ObjectLoop e0
                                (set_Object (map_assign Name New (Object n)) (set_Type ValueType_Object n))
                                (tl (SkipSpace c2)))))
          else exec (Call_ObjectLoop e0 n (SkipSpace c))
      | Call_ParseArray e0 n c \<Rightarrow>
          if peek c = CHR ''['' then exec (Call_ArrayLoop e0 n (tl c))
          else Some (Inr (Undefined, n, c))
      | Call_ArrayLoop e0 n c \<Rightarrow>
          if peek c = NUL then Some (Inr (Undefined, n, c))
          else if Array n = [] \<and> peek (SkipSpace c) = CHR '']''
            then Some (Inr (Error_None, n, SkipSpace c))
          else Option.bind (exec (Call_Parse (Some e0) Node_default (SkipSpace c))) (\<lambda>r.
            case r of
              Inl u \<Rightarrow> Some (Inl u)
            | Inr (Err, New, c2) \<Rightarrow>
                if Err \<noteq> Error_None then Some (Inr (Err, set_Array [] n, c2))
                else if peek (SkipSpace c2) = CHR '']''
                  then Some (Inr (Error_None,
                         set_Array (Array n @ [New]) (set_Type ValueType_Array n), tl (SkipSpace c2)))
                else if peek (SkipSpace c2) \<noteq> CHR '',''
                  then Some (Inr (MissedComma, set_Array [] (set_Type ValueType_Array n), SkipSpace c2))
                else exec (Call_ArrayLoop e0
                       (set_Array (Array n @ [New]) (set_Type ValueType_Array n)) (tl (SkipSpace c2)))))"

declare exec.simps [code]

text \<open>The member functions by their names.\<close>

definition Parse :: "Error option \<Rightarrow> Node \<Rightarrow> string \<Rightarrow> result option" where
  "Parse outer n c = exec (Call_Parse outer n c)"

definition ParseObject :: "Error \<Rightarrow> Node \<Rightarrow> string \<Rightarrow> result option" where
  "ParseObject e0 n c = exec (Call_ParseObject e0 n c)"

definition ParseArray :: "Error \<Rightarrow> Node \<Rightarrow> string \<Rightarrow> result option" where
  "ParseArray e0 n c = exec (Call_ParseArray e0 n c)"

text \<open>
  \<open>JSON(std::istream& Stream) { Stream >> Root; }\<close>: the root is default-constructed and
  \<open>operator>>\<close> runs \<open>Parse\<close> on the whole text of the stream; it throws the returned
  error unless that is \<open>Error::None\<close>. This is the first activation of \<open>Parse\<close>.
\<close>

definition JSON_parse :: "string \<Rightarrow> result option" where
  "JSON_parse Str = Parse None Node_default Str"

section \<open>Notions used in the statements\<close>

text \<open>The characters a number can consist of.\<close>

definition numchar :: "char \<Rightarrow> bool" where
  "numchar x \<longleftrightarrow> isdigit x \<or> x = CHR ''-'' \<or> x = CHR ''.'' \<or> x = CHR ''e'' \<or> x = CHR ''E''"

text \<open>
  A sequence of assignments \<open>Object[k] = v\<close> to an empty map, in the order of the list, as
  \<open>ParseObject\<close> and writes through the string index make them.
\<close>

definition insert_all :: "(string \<times> Node) list \<Rightarrow> Object_t" where
  "insert_all kvs = fold (\<lambda>(k, v) m. map_assign k v m) kvs []"

text \<open>The text the serializer writes for one member, between the tabs and the comma.\<close>

definition member_text :: "(fp \<Rightarrow> string) \<Rightarrow> nat \<Rightarrow> string \<times> Node \<Rightarrow> string" where
  "member_text fmt Level m = QUOTE # fst m @ QUOTE # '': '' @ print fmt Level (snd m)"

text \<open>
  The trees of the round trip: built by the constructors from integers above \<open>INT_MIN\<close>,
  booleans, null, strings with no double quote, and non-empty arrays and objects of such
  trees, the keys with no double quote and in the key order of the map. The payloads that
  the tag does not select are the default-constructed ones, as the constructors leave them.
\<close>

fun plain_scalar :: "variant \<Rightarrow> bool" where
  "plain_scalar (V_string s) = (QUOTE \<notin> set s)"
| "plain_scalar (V_int i) = (INT_MIN < i \<and> i \<le> INT_MAX)"
| "plain_scalar (V_float f) = False"
| "plain_scalar (V_bool b) = True"
| "plain_scalar V_nullptr = True"

fun plain :: "Node \<Rightarrow> bool"
  and plain_members :: "Object_t \<Rightarrow> bool"
  and plain_elements :: "Array_t \<Rightarrow> bool" where
  "plain (Node v arr obj ty) =
     (case ty of
        ValueType_Variant \<Rightarrow> plain_scalar v \<and> arr = [] \<and> obj = []
      | ValueType_Array \<Rightarrow> v = V_string [] \<and> obj = [] \<and> arr \<noteq> [] \<and> plain_elements arr
      | ValueType_Object \<Rightarrow>
          v = V_string [] \<and> arr = [] \<and> obj \<noteq> [] \<and> sorted_wrt (<) (map fst obj) \<and> plain_members obj)"
| "plain_members [] = True"
| "plain_members ((k, N) # ms) = (QUOTE \<notin> set k \<and> plain N \<and> plain_members ms)"
| "plain_elements [] = True"
| "plain_elements (E # es) = (plain E \<and> plain_elements es)"

text \<open>The characters that follow a value in the serializer's text: a comma, a closing
  bracket or brace, a newline, or the end of the text.\<close>

definition follow :: "string \<Rightarrow> bool" where
  "follow c \<longleftrightarrow>
     peek c = NUL \<or> peek c = CHR '','' \<or> peek c = CHR '']'' \<or> peek c = CHR ''}'' \<or> peek c = NEWLINE"

text \<open>The value of a run of digits read after the value \<open>N\<close>, as \<open>ExtractInt\<close> accumulates it.\<close>

definition digits_value :: "int \<Rightarrow> string \<Rightarrow> int" where
  "digits_value N ds = fold (\<lambda>x a. a * 10 + digit_val x) ds N"

text \<open>An activation of \<open>Parse\<close> whose \<open>Check()\<close> stays false as long as the productions return
  \<open>Error::None\<close> or \<open>Undefined\<close>: the first one, or a nested one under a first activation whose
  \<open>Err\<close> holds one of the two.\<close>

definition quiet :: "Error option \<Rightarrow> bool" where
  "quiet outer \<longleftrightarrow> outer = None \<or> outer = Some Error_None \<or> outer = Some Undefined"

text \<open>The characters a value can start with.\<close>

definition value_start :: "char \<Rightarrow> bool" where
  "value_start x \<longleftrightarrow>
     x = QUOTE \<or> x = CHR ''t'' \<or> x = CHR ''f'' \<or> x = CHR ''n'' \<or> x = CHR ''-'' \<or> isdigit x
     \<or> x = CHR ''['' \<or> x = CHR ''{''"

text \<open>
  What the round trip shows of a node, of the members of an object and of the elements of
  an array, by the recursion of the serializer: the dispatcher reads the text of a node back
  to the node, and the loops of \<open>ParseObject\<close> and \<open>ParseArray\<close> read the text of the members
  and elements back into the node they work on.
\<close>

definition reads_node :: "(fp \<Rightarrow> string) \<Rightarrow> nat \<Rightarrow> Node \<Rightarrow> bool" where
  "reads_node fmt L n \<longleftrightarrow>
     (plain n \<longrightarrow>
       (\<forall>outer r. quiet outer \<longrightarrow> follow ((if L = 0 then [NEWLINE] else []) @ r) \<longrightarrow>
          exec (Call_Parse outer Node_default (print fmt L n @ r))
            = Some (Inr (Error_None, n, (if L = 0 then [NEWLINE] else []) @ r))))"

definition reads_members :: "(fp \<Rightarrow> string) \<Rightarrow> nat \<Rightarrow> Object_t \<Rightarrow> bool" where
  "reads_members fmt L ms \<longleftrightarrow>
     (ms \<noteq> [] \<longrightarrow> plain_members ms \<longrightarrow> 0 < L \<longrightarrow>
       (\<forall>e0 acc ws cl r. quiet (Some e0) \<longrightarrow> (\<forall>x\<in>set ws. isspace x) \<longrightarrow> (\<forall>x\<in>set cl. isspace x) \<longrightarrow>
          exec (Call_ObjectLoop e0 acc (ws @ print_members fmt L ms @ cl @ CHR ''}'' # r))
            = Some (Inr (Error_None,
                set_Object (fold (\<lambda>(k, v) m. map_assign k v m) ms (Object acc))
                  (set_Type ValueType_Object acc), r))))"

definition reads_elements :: "(fp \<Rightarrow> string) \<Rightarrow> nat \<Rightarrow> Array_t \<Rightarrow> bool" where
  "reads_elements fmt L es \<longleftrightarrow>
     (es \<noteq> [] \<longrightarrow> plain_elements es \<longrightarrow>
       (\<forall>e0 acc ws r. quiet (Some e0) \<longrightarrow> (\<forall>x\<in>set ws. isspace x) \<longrightarrow>
          exec (Call_ArrayLoop e0 acc (ws @ print_elements fmt L es @ CHR '']'' # r))
            = Some (Inr (Error_None,
                set_Array (Array acc @ es) (set_Type ValueType_Array acc), r))))"

text \<open>A float formatting for the texts of trees that hold no float.\<close>

definition no_float_text :: "fp \<Rightarrow> string" where
  "no_float_text f = []"

text \<open>
  Every map in a tree is in key order: the object payload of the node and, through both
  containers, of every node below it, whatever the tags.
\<close>

fun key_ordered :: "Node \<Rightarrow> bool"
  and key_ordered_members :: "Object_t \<Rightarrow> bool"
  and key_ordered_elements :: "Array_t \<Rightarrow> bool" where
  "key_ordered (Node v arr obj ty) =
     (sorted_wrt (<) (map fst obj) \<and> key_ordered_members obj \<and> key_ordered_elements arr)"
| "key_ordered_members [] = True"
| "key_ordered_members ((k, N) # ms) = (key_ordered N \<and> key_ordered_members ms)"
| "key_ordered_elements [] = True"
| "key_ordered_elements (E # es) = (key_ordered E \<and> key_ordered_elements es)"

text \<open>The node a call of the parser works on, and the node of its result.\<close>

fun call_node :: "call \<Rightarrow> Node" where
  "call_node (Call_Parse outer n c) = n"
| "call_node (Call_ParseObject e0 n c) = n"
| "call_node (Call_ObjectLoop e0 n c) = n"
| "call_node (Call_ParseArray e0 n c) = n"
| "call_node (Call_ArrayLoop e0 n c) = n"

definition result_key_ordered :: "result \<Rightarrow> bool" where
  "result_key_ordered r = (case r of Inl u \<Rightarrow> True | Inr (E, n, c) \<Rightarrow> key_ordered n)"

section \<open>Unfolding the parser\<close>

text \<open>One step of each call of \<open>exec\<close>, with the sequencing written as case distinctions.\<close>

lemma bind_case: "Option.bind x f = (case x of None \<Rightarrow> None | Some a \<Rightarrow> f a)"
  by (cases x) simp_all

lemma exec_Parse:
  "exec (Call_Parse outer n c) =
     (case scalar_productions outer n (SkipSpace c) of
        Inl r \<Rightarrow> Some r
      | Inr (e4, n4, c4) \<Rightarrow>
          (case exec (Call_ParseObject (captured outer e4) n4 c4) of
             None \<Rightarrow> None
           | Some r5 \<Rightarrow>
               (case r5 of
                  Inl u \<Rightarrow> Some (Inl u)
                | Inr (e5, n5, c5) \<Rightarrow>
                    if Check outer e5 then Some (Inr (e5, n5, c5))
                    else (case exec (Call_ParseArray (captured outer e5) n5 c5) of
                       None \<Rightarrow> None
                     | Some r6 \<Rightarrow>
                         (case r6 of
                            Inl u \<Rightarrow> Some (Inl u)
                          | Inr (e6, n6, c6) \<Rightarrow>
                              if Check outer e6 then Some (Inr (e6, n6, c6))
                              else Some (Inr (Error_None, n6, c6)))))))"
  by (subst exec.simps) (simp only: call.case bind_case)

lemma exec_ParseObject:
  "exec (Call_ParseObject e0 n c) =
     (if peek c = CHR ''{'' then exec (Call_ObjectLoop e0 n (tl c))
      else Some (Inr (Undefined, n, c)))"
  by (subst exec.simps) (simp only: call.case)

lemma exec_ParseArray:
  "exec (Call_ParseArray e0 n c) =
     (if peek c = CHR ''['' then exec (Call_ArrayLoop e0 n (tl c))
      else Some (Inr (Undefined, n, c)))"
  by (subst exec.simps) (simp only: call.case)

lemma exec_ObjectLoop:
  "exec (Call_ObjectLoop e0 n c) =
     (if peek c = NUL then Some (Inr (Undefined, n, c))
      else if peek (SkipSpace c) = CHR ''}''
        then Some (Inr (Error_None, set_Type ValueType_Object n, SkipSpace c))
      else if peek (SkipSpace c) = QUOTE then
        (case ExtractString (tl (SkipSpace c)) of
           Inl u \<Rightarrow> Some (Inl u)
         | Inr (Name, c1) \<Rightarrow>
             if peek c1 \<noteq> QUOTE then Some (Inr (MissedQuot, set_Object [] n, c1))
             else if peek (SkipSpace (tl c1)) \<noteq> CHR '':''
               then Some (Inr (MissedColon, set_Object [] n, SkipSpace (tl c1)))
             else (case exec (Call_Parse (Some e0) Node_default (SkipSpace (tl (SkipSpace (tl c1))))) of
                 None \<Rightarrow> None
               | Some r \<Rightarrow>
                 (case r of
                   Inl u \<Rightarrow> Some (Inl u)
                 | Inr (Err, New, c2) \<Rightarrow>
                     if Err \<noteq> Error_None then Some (Inr (Err, set_Object [] n, c2))
                     else if peek (SkipSpace c2) = CHR ''}''
                       then Some (Inr (Error_None,
                              set_Object (map_assign Name New (Object n)) (set_Type ValueType_Object n),
                              tl (SkipSpace c2)))
                     else if peek (SkipSpace c2) \<noteq> CHR '',''
                       then Some (Inr (MissedComma,
                              set_Object [] (set_Type ValueType_Object n), SkipSpace c2))
                     else exec (Call_ObjectLoop e0
                            (set_Object (map_assign Name New (Object n)) (set_Type ValueType_Object n))
                            (tl (SkipSpace c2))))))
      else exec (Call_ObjectLoop e0 n (SkipSpace c)))"
  by (subst exec.simps) (simp only: call.case bind_case)

lemma exec_ArrayLoop:
  "exec (Call_ArrayLoop e0 n c) =
     (if peek c = NUL then Some (Inr (Undefined, n, c))
      else if Array n = [] \<and> peek (SkipSpace c) = CHR '']''
        then Some (Inr (Error_None, n, SkipSpace c))
      else (case exec (Call_Parse (Some e0) Node_default (SkipSpace c)) of
          None \<Rightarrow> None
        | Some r \<Rightarrow>
         (case r of
          Inl u \<Rightarrow> Some (Inl u)
        | Inr (Err, New, c2) \<Rightarrow>
            if Err \<noteq> Error_None then Some (Inr (Err, set_Array [] n, c2))
            else if peek (SkipSpace c2) = CHR '']''
              then Some (Inr (Error_None,
                     set_Array (Array n @ [New]) (set_Type ValueType_Array n), tl (SkipSpace c2)))
            else if peek (SkipSpace c2) \<noteq> CHR '',''
              then Some (Inr (MissedComma, set_Array [] (set_Type ValueType_Array n), SkipSpace c2))
            else exec (Call_ArrayLoop e0
                   (set_Array (Array n @ [New]) (set_Type ValueType_Array n)) (tl (SkipSpace c2))))))"
  by (subst exec.simps) (simp only: call.case bind_case)

lemmas exec_eval = exec_Parse exec_ParseObject exec_ParseArray exec_ObjectLoop exec_ArrayLoop
  Parse_def ParseObject_def ParseArray_def JSON_parse_def

text \<open>Floor and ceiling of a quotient of numerals.\<close>

lemma floor_rat_divide_numeral:
  "\<lfloor>numeral a / numeral b :: rat\<rfloor> = numeral a div numeral b"
  "\<lfloor>- (numeral a / numeral b) :: rat\<rfloor> = - numeral a div numeral b"
  "\<lfloor>1 / numeral b :: rat\<rfloor> = 1 div numeral b"
  "\<lfloor>- (1 / numeral b) :: rat\<rfloor> = - 1 div numeral b"
proof -
  show "\<lfloor>numeral a / numeral b :: rat\<rfloor> = numeral a div numeral b"
    using floor_divide_of_int_eq [of "numeral a" "numeral b", where ?'a = rat] by simp
  show "\<lfloor>- (numeral a / numeral b) :: rat\<rfloor> = - numeral a div numeral b"
    using floor_divide_of_int_eq [of "- numeral a" "numeral b", where ?'a = rat] by simp
  show "\<lfloor>1 / numeral b :: rat\<rfloor> = 1 div numeral b"
    using floor_divide_of_int_eq [of 1 "numeral b", where ?'a = rat] by simp
  show "\<lfloor>- (1 / numeral b) :: rat\<rfloor> = - 1 div numeral b"
    using floor_divide_of_int_eq [of "- 1" "numeral b", where ?'a = rat] by simp
qed

lemma ceiling_rat_divide_numeral:
  "\<lceil>numeral a / numeral b :: rat\<rceil> = - (- numeral a div numeral b)"
  "\<lceil>- (numeral a / numeral b) :: rat\<rceil> = - (numeral a div numeral b)"
  "\<lceil>1 / numeral b :: rat\<rceil> = - (- 1 div numeral b)"
  "\<lceil>- (1 / numeral b) :: rat\<rceil> = - (1 div numeral b)"
  unfolding ceiling_def
  by (simp_all add: floor_rat_divide_numeral del: div_minus_minus)

lemmas fp_eval = floor_rat_divide_numeral ceiling_rat_divide_numeral bits.simps
  to_double_def round_fmt_def ilog2_def pow2_def round_half_even_def Let_def
  pow10_def double_of_int_def INT_MAX_def INT_MIN_def

lemmas leaf_eval = scalar_productions_def ParseString_def ParseBool_def ParseNull_def ParseNumber_def
  number_value_def number_fraction_def number_exponent_def number_store_def ExtractInt_def ExtractDec_def
  peek_def isspace_def isdigit_def digit_val_def captured_def Check_def
  set_Variant_def set_Type_def set_Array_def set_Object_def Node_default_def

section \<open>What a scalar production consumes\<close>

lemma ExtractString_splits:
  "ExtractString xs = Inr (S, c1) \<Longrightarrow> xs = S @ c1 \<and> peek c1 = QUOTE \<and> QUOTE \<notin> set S"
proof (induction xs arbitrary: S)
  case Nil
  then show ?case by simp
next
  case (Cons x xs)
  show ?case
  proof (cases "x = QUOTE")
    case True
    with Cons.prems show ?thesis by (auto simp: peek_def)
  next
    case False
    with Cons.prems obtain S' where e: "ExtractString xs = Inr (S', c1)" and S: "S = x # S'"
      by (auto split: sum.splits)
    from Cons.IH [OF e] S False show ?thesis by simp
  qed
qed

lemma ParseString_consumes:
  assumes "ParseString n c = Inr (Error_None, n', c')"
  shows "\<exists>S. c = QUOTE # S @ QUOTE # c' \<and> QUOTE \<notin> set S \<and> n' = set_Type ValueType_Variant (set_Variant (V_string S) n)"
proof -
  from assms have q: "peek c = QUOTE"
    by (auto simp: ParseString_def split: if_splits)
  then obtain r where c: "c = QUOTE # r"
    by (cases c) (auto simp: peek_def)
  from assms q obtain S c1 where e: "ExtractString (tl c) = Inr (S, c1)"
    and p: "peek c1 = QUOTE" and c': "c' = tl c1" and n': "n' = set_Type ValueType_Variant (set_Variant (V_string S) n)"
    by (auto simp: ParseString_def split: if_splits sum.splits)
  from ExtractString_splits [OF e] c have "r = S @ c1" "QUOTE \<notin> set S" by simp_all
  moreover from p c' have "c1 = QUOTE # c'" by (cases c1) (auto simp: peek_def)
  ultimately show ?thesis using c n' by auto
qed

lemma ParseBool_consumes:
  assumes "ParseBool n c = Inr (Error_None, n', c')"
  shows "c = ''true'' @ c' \<or> c = ''false'' @ c'"
proof -
  have a: "take k c = t \<Longrightarrow> c = t @ drop k c" for k t
    using append_take_drop_id [of k c] by simp
  from assms show ?thesis
    by (auto simp: ParseBool_def Let_def split: if_splits dest: a)
qed

lemma ParseNull_consumes:
  assumes "ParseNull n c = Inr (Error_None, n', c')"
  shows "c = ''null'' @ c'"
proof -
  have a: "take k c = t \<Longrightarrow> c = t @ drop k c" for k t
    using append_take_drop_id [of k c] by simp
  from assms show ?thesis
    by (auto simp: ParseNull_def split: if_splits dest: a)
qed

lemma ExtractInt_loop_splits:
  "ExtractInt_loop N xs = Inr (i, c1) \<Longrightarrow>
     \<exists>d. xs = d @ c1 \<and> (\<forall>x\<in>set d. isdigit x) \<and> \<not> isdigit (peek c1)"
proof (induction xs arbitrary: N)
  case Nil
  then show ?case by (simp add: peek_def isdigit_def)
next
  case (Cons x xs)
  show ?case
  proof (cases "isdigit x")
    case True
    with Cons.prems have "ExtractInt_loop (N * 10 + digit_val x) xs = Inr (i, c1)"
      by (simp split: if_splits)
    from Cons.IH [OF this] obtain d where "xs = d @ c1" "\<forall>x\<in>set d. isdigit x" "\<not> isdigit (peek c1)"
      by blast
    with True have "x # xs = (x # d) @ c1 \<and> (\<forall>y\<in>set (x # d). isdigit y) \<and> \<not> isdigit (peek c1)"
      by simp
    then show ?thesis by blast
  next
    case False
    with Cons.prems have "c1 = x # xs" by simp
    with False have "x # xs = [] @ c1 \<and> (\<forall>y\<in>set []. isdigit y) \<and> \<not> isdigit (peek c1)"
      by (simp add: peek_def)
    then show ?thesis by blast
  qed
qed

lemma ExtractDec_loop_splits:
  "ExtractDec_loop N F xs = (v, c1) \<Longrightarrow>
     \<exists>d. xs = d @ c1 \<and> (\<forall>x\<in>set d. isdigit x) \<and> \<not> isdigit (peek c1)"
proof (induction xs arbitrary: N F)
  case Nil
  then show ?case by (simp add: peek_def isdigit_def)
next
  case (Cons x xs)
  show ?case
  proof (cases "isdigit x")
    case True
    with Cons.prems have "ExtractDec_loop (fp_add N (fp_mul (double_of_int (digit_val x)) F))
             (fp_mul F (to_double (1 / 10))) xs = (v, c1)"
      by simp
    from Cons.IH [OF this] obtain d where "xs = d @ c1" "\<forall>x\<in>set d. isdigit x" "\<not> isdigit (peek c1)"
      by blast
    with True have "x # xs = (x # d) @ c1 \<and> (\<forall>y\<in>set (x # d). isdigit y) \<and> \<not> isdigit (peek c1)"
      by simp
    then show ?thesis by blast
  next
    case False
    with Cons.prems have "c1 = x # xs" by simp
    with False have "x # xs = [] @ c1 \<and> (\<forall>y\<in>set []. isdigit y) \<and> \<not> isdigit (peek c1)"
      by (simp add: peek_def)
    then show ?thesis by blast
  qed
qed
lemma peek_Cons: "peek c = x \<Longrightarrow> x \<noteq> NUL \<Longrightarrow> c = x # tl c"
  by (cases c) (auto simp: peek_def)

lemma number_fraction_splits:
  assumes "number_fraction Number c = Inr (N', c2)"
  shows "\<exists>t. c = t @ c2 \<and> (\<forall>x\<in>set t. numchar x) \<and> (t \<noteq> [] \<longrightarrow> \<not> isdigit (peek c2))"
proof (cases "peek c = CHR ''.''")
  case True
  then have c: "c = CHR ''.'' # tl c" by (rule peek_Cons) simp
  from assms True obtain d where e: "ExtractDec_loop (Finite 0) (to_double (1 / 10)) (tl c) = (d, c2)"
    by (auto simp: number_fraction_def ExtractDec_def split: if_splits prod.splits)
  from ExtractDec_loop_splits [OF e] obtain ds where ds: "tl c = ds @ c2" "\<forall>x\<in>set ds. isdigit x" "\<not> isdigit (peek c2)"
    by blast
  have "c = (CHR ''.'' # ds) @ c2 \<and> (\<forall>x\<in>set (CHR ''.'' # ds). numchar x) \<and> (CHR ''.'' # ds \<noteq> [] \<longrightarrow> \<not> isdigit (peek c2))"
    using c ds by (auto simp: numchar_def)
  then show ?thesis by blast
next
  case False
  with assms have "c2 = c" by (simp add: number_fraction_def)
  then have "c = [] @ c2 \<and> (\<forall>x\<in>set []. numchar x) \<and> ([] \<noteq> ([]::string) \<longrightarrow> \<not> isdigit (peek c2))" by simp
  then show ?thesis by blast
qed

lemma number_exponent_splits:
  assumes "number_exponent Number c = Inr (Inr (N', c3))"
  shows "\<exists>t. c = t @ c3 \<and> (\<forall>x\<in>set t. numchar x) \<and> (t \<noteq> [] \<longrightarrow> \<not> isdigit (peek c3))"
proof (cases "peek c = CHR ''e'' \<or> peek c = CHR ''E''")
  case True
  then obtain m where c: "c = m # tl c" and m: "m = CHR ''e'' \<or> m = CHR ''E''"
    using peek_Cons [of c "CHR ''e''"] peek_Cons [of c "CHR ''E''"] by auto
  show ?thesis
  proof (cases "peek (tl c) = CHR ''-''")
    case neg: True
    then have t: "tl c = CHR ''-'' # tl (tl c)" by (rule peek_Cons) simp
    from assms True neg obtain i where e: "ExtractInt_loop 0 (tl (tl c)) = Inr (i, c3)"
      by (auto simp: number_exponent_def ExtractInt_def Let_def split: if_splits sum.splits)
    from ExtractInt_loop_splits [OF e] obtain ds where ds: "tl (tl c) = ds @ c3" "\<forall>x\<in>set ds. isdigit x" "\<not> isdigit (peek c3)"
      by blast
    have "c = (m # CHR ''-'' # ds) @ c3" using c t ds by (metis append_Cons)
    moreover have "\<forall>x\<in>set (m # CHR ''-'' # ds). numchar x" using m ds by (auto simp: numchar_def)
    ultimately have "c = (m # CHR ''-'' # ds) @ c3 \<and> (\<forall>x\<in>set (m # CHR ''-'' # ds). numchar x)
        \<and> (m # CHR ''-'' # ds \<noteq> [] \<longrightarrow> \<not> isdigit (peek c3))"
      using ds by simp
    then show ?thesis by blast
  next
    case pos: False
    from assms True pos obtain i where e: "ExtractInt_loop 0 (tl c) = Inr (i, c3)"
      by (auto simp: number_exponent_def ExtractInt_def Let_def split: if_splits sum.splits)
    from ExtractInt_loop_splits [OF e] obtain ds where ds: "tl c = ds @ c3" "\<forall>x\<in>set ds. isdigit x" "\<not> isdigit (peek c3)"
      by blast
    have "c = (m # ds) @ c3" using c ds by (metis append_Cons)
    moreover have "\<forall>x\<in>set (m # ds). numchar x" using m ds by (auto simp: numchar_def)
    ultimately have "c = (m # ds) @ c3 \<and> (\<forall>x\<in>set (m # ds). numchar x)
        \<and> (m # ds \<noteq> [] \<longrightarrow> \<not> isdigit (peek c3))"
      using ds by simp
    then show ?thesis by blast
  qed
next
  case False
  with assms have "c3 = c" by (auto simp: number_exponent_def)
  then have "c = [] @ c3 \<and> (\<forall>x\<in>set []. numchar x) \<and> ([] \<noteq> ([]::string) \<longrightarrow> \<not> isdigit (peek c3))" by simp
  then show ?thesis by blast
qed

lemma number_value_splits:
  assumes start: "peek c = CHR ''-'' \<or> isdigit (peek c)"
    and val: "number_value c = Inr (Inr (Number, c'))"
  shows "\<exists>t. c = t @ c' \<and> t \<noteq> [] \<and> (\<forall>x\<in>set t. numchar x) \<and> \<not> isdigit (peek c')"
proof -
  define c0 where "c0 = (if peek c = CHR ''-'' then tl c else c)"
  define s where "s = (if peek c = CHR ''-'' then ''-'' else [])"
  have c: "c = s @ c0"
    using peek_Cons [of c "CHR ''-''"] by (auto simp: c0_def s_def)
  have s: "\<forall>x\<in>set s. numchar x" by (simp add: s_def numchar_def)
  from val obtain i c1 N1 c2 N2 where
    e1: "ExtractInt_loop 0 c0 = Inr (i, c1)" and
    e2: "number_fraction (double_of_int i) c1 = Inr (N1, c2)" and
    e3: "number_exponent N1 c2 = Inr (Inr (N2, c'))"
    by (auto simp: number_value_def Let_def ExtractInt_def c0_def split: sum.splits)
  from ExtractInt_loop_splits [OF e1] obtain t1 where
    t1: "c0 = t1 @ c1" "\<forall>x\<in>set t1. isdigit x" "\<not> isdigit (peek c1)" by blast
  from number_fraction_splits [OF e2] obtain t2 where
    t2: "c1 = t2 @ c2" "\<forall>x\<in>set t2. numchar x" "t2 \<noteq> [] \<longrightarrow> \<not> isdigit (peek c2)" by blast
  from number_exponent_splits [OF e3] obtain t3 where
    t3: "c2 = t3 @ c'" "\<forall>x\<in>set t3. numchar x" "t3 \<noteq> [] \<longrightarrow> \<not> isdigit (peek c')" by blast
  have full: "c = (s @ t1 @ t2 @ t3) @ c'"
    using c t1 t2 t3 by simp
  have chars: "\<forall>x\<in>set (s @ t1 @ t2 @ t3). numchar x"
    using s t1 t2 t3 by (auto simp: numchar_def)
  have nonempty: "s @ t1 @ t2 @ t3 \<noteq> []"
  proof (cases "peek c = CHR ''-''")
    case True
    then show ?thesis by (simp add: s_def)
  next
    case False
    with start have d: "isdigit (peek c)" by simp
    from False have "c0 = c" by (simp add: c0_def)
    with t1 d have "t1 \<noteq> []" by auto
    then show ?thesis by simp
  qed
  have last: "\<not> isdigit (peek c')"
  proof (cases "t3 = []")
    case False
    with t3 show ?thesis by simp
  next
    case True
    with t3 have c2: "c2 = c'" by simp
    show ?thesis
    proof (cases "t2 = []")
      case False
      with t2 c2 show ?thesis by simp
    next
      case True
      with t2 c2 t1 show ?thesis by simp
    qed
  qed
  from full chars nonempty last show ?thesis by blast
qed

lemma ParseNumber_consumes:
  assumes "ParseNumber n c = Inr (Error_None, n', c')"
  shows "\<exists>t. c = t @ c' \<and> t \<noteq> [] \<and> (\<forall>x\<in>set t. numchar x) \<and> \<not> isdigit (peek c')"
proof -
  from assms have start: "peek c = CHR ''-'' \<or> isdigit (peek c)"
    by (auto simp: ParseNumber_def split: if_splits)
  from assms start obtain Number where "number_value c = Inr (Inr (Number, c'))"
    by (auto simp: ParseNumber_def number_store_def split: if_splits sum.splits)
  from number_value_splits [OF start this] show ?thesis .
qed

section \<open>The order of the members of an object\<close>

lemma keys_map_assign: "fst ` set (map_assign k v m) = insert k (fst ` set m)"
proof (induction m)
  case Nil
  then show ?case by simp
next
  case (Cons a m)
  obtain k' v' where a: "a = (k', v')" by (cases a)
  show ?case
    using Cons.IH by (simp add: a insert_commute)
qed

lemma sorted_map_assign:
  "sorted_wrt (<) (map fst m) \<Longrightarrow> sorted_wrt (<) (map fst (map_assign k v m))"
proof (induction m)
  case Nil
  then show ?case by simp
next
  case (Cons a m)
  obtain k' v' where a: "a = (k', v')" by (cases a)
  from Cons.prems a have tail: "sorted_wrt (<) (map fst m)" and less: "\<forall>x\<in>fst ` set m. k' < x"
    by auto
  show ?case
  proof (cases "k < k'")
    case True
    with less have "\<forall>x\<in>fst ` set m. k < x" by auto
    with True tail less show ?thesis by (auto simp: a)
  next
    case False
    show ?thesis
    proof (cases "k = k'")
      case True
      with tail less show ?thesis by (auto simp: a)
    next
      case ne: False
      with False have "k' < k" by simp
      with less have "\<forall>x\<in>fst ` set (map_assign k v m). k' < x"
        by (simp add: keys_map_assign)
      with Cons.IH [OF tail] False ne show ?thesis by (auto simp: a)
    qed
  qed
qed

lemma sorted_fold_map_assign:
  "sorted_wrt (<) (map fst m) \<Longrightarrow>
     sorted_wrt (<) (map fst (fold (\<lambda>(k, v) m. map_assign k v m) kvs m))"
  by (induction kvs arbitrary: m) (auto simp: sorted_map_assign)

lemma sorted_insert_all: "sorted_wrt (<) (map fst (insert_all kvs))"
  by (simp add: insert_all_def sorted_fold_map_assign)

lemma print_members_one:
  "j < length ms \<Longrightarrow>
     \<exists>pre post. print_members fmt L ms = pre @ member_text fmt L (ms ! j) @ post"
proof (induction ms arbitrary: j)
  case Nil
  then show ?case by simp
next
  case (Cons a ms)
  obtain k N where a: "a = (k, N)" by (cases a)
  show ?case
  proof (cases j)
    case 0
    have "print_members fmt L (a # ms) =
        Tabs L @ member_text fmt L ((a # ms) ! 0)
        @ ((if ms \<noteq> [] then '','' else []) @ NEWLINE # print_members fmt L ms)"
      by (simp add: a member_text_def)
    with 0 show ?thesis by blast
  next
    case (Suc j')
    with Cons.prems have "j' < length ms" by simp
    from Cons.IH [OF this] obtain pre post where
      "print_members fmt L ms = pre @ member_text fmt L (ms ! j') @ post" by blast
    then have "print_members fmt L (a # ms) =
        (Tabs L @ QUOTE # k @ QUOTE # '': '' @ print fmt L N
           @ (if ms \<noteq> [] then '','' else []) @ NEWLINE # pre)
        @ member_text fmt L ((a # ms) ! Suc j') @ post"
      by (simp add: a)
    with Suc show ?thesis by blast
  qed
qed

lemma print_members_two:
  "i < j \<Longrightarrow> j < length ms \<Longrightarrow>
     \<exists>pre mid post. print_members fmt L ms =
        pre @ member_text fmt L (ms ! i) @ mid @ member_text fmt L (ms ! j) @ post"
proof (induction ms arbitrary: i j)
  case Nil
  then show ?case by simp
next
  case (Cons a ms)
  obtain k N where a: "a = (k, N)" by (cases a)
  from Cons.prems obtain j' where j: "j = Suc j'" and j': "j' < length ms"
    by (cases j) auto
  show ?case
  proof (cases i)
    case 0
    from print_members_one [OF j'] obtain pre post where
      "print_members fmt L ms = pre @ member_text fmt L (ms ! j') @ post" by blast
    then have "print_members fmt L (a # ms) =
        Tabs L @ member_text fmt L ((a # ms) ! 0)
        @ ((if ms \<noteq> [] then '','' else []) @ NEWLINE # pre)
        @ member_text fmt L ((a # ms) ! Suc j') @ post"
      by (simp add: a member_text_def)
    with 0 j show ?thesis by blast
  next
    case (Suc i')
    with Cons.prems j have "i' < j'" by simp
    from Cons.IH [OF this j'] obtain pre mid post where
      "print_members fmt L ms =
         pre @ member_text fmt L (ms ! i') @ mid @ member_text fmt L (ms ! j') @ post" by blast
    then have "print_members fmt L (a # ms) =
        (Tabs L @ QUOTE # k @ QUOTE # '': '' @ print fmt L N
           @ (if ms \<noteq> [] then '','' else []) @ NEWLINE # pre)
        @ member_text fmt L ((a # ms) ! Suc i') @ mid @ member_text fmt L ((a # ms) ! Suc j') @ post"
      by (simp add: a)
    with Suc j show ?thesis by blast
  qed
qed

lemma print_object_two:
  assumes "i < j" "j < length m"
  shows "\<exists>pre mid post. print fmt L (Node var arr m ValueType_Object) =
        pre @ member_text fmt (Suc L) (m ! i) @ mid @ member_text fmt (Suc L) (m ! j) @ post"
proof -
  from print_members_two [OF assms] obtain pre mid post where
    "print_members fmt (Suc L) m =
       pre @ member_text fmt (Suc L) (m ! i) @ mid @ member_text fmt (Suc L) (m ! j) @ post"
    by blast
  then have "print fmt L (Node var arr m ValueType_Object) =
      ((if L \<noteq> 0 then [NEWLINE] else []) @ Tabs L @ CHR ''{'' # NEWLINE # pre)
      @ member_text fmt (Suc L) (m ! i) @ mid @ member_text fmt (Suc L) (m ! j)
      @ (post @ Tabs L @ ''}'' @ (if L = 0 then [NEWLINE] else []))"
    by simp
  then show ?thesis by blast
qed

section \<open>Reading back what the serializer writes\<close>

subsection \<open>White space, strings and integers\<close>

lemma SkipSpace_nonspace: "\<not> isspace (peek c) \<Longrightarrow> SkipSpace c = c"
  by (cases c) (auto simp: peek_def)

lemma SkipSpace_spaces: "\<forall>x\<in>set ws. isspace x \<Longrightarrow> SkipSpace (ws @ c) = SkipSpace c"
  by (induction ws) auto

lemma SkipSpace_peek: "\<not> isspace (peek (SkipSpace c))"
  by (induction c) (auto simp: peek_def isspace_def)

lemma SkipSpace_idem: "SkipSpace (SkipSpace c) = SkipSpace c"
  by (simp add: SkipSpace_nonspace SkipSpace_peek)

lemma exec_Parse_SkipSpace: "exec (Call_Parse outer n (SkipSpace c)) = exec (Call_Parse outer n c)"
  by (simp add: exec_Parse SkipSpace_idem)

lemma Tabs_spaces: "\<forall>x\<in>set (Tabs L). isspace x"
  by (simp add: Tabs_def isspace_def)

lemma ExtractString_to_quote:
  "QUOTE \<notin> set k \<Longrightarrow> ExtractString (k @ QUOTE # r) = Inr (k, QUOTE # r)"
  by (induction k) auto

lemma digit_char_props:
  assumes "d < 10"
  shows "isdigit (digit_char d) \<and> digit_val (digit_char d) = int d"
proof -
  from assms consider "d = 0" | "d = 1" | "d = 2" | "d = 3" | "d = 4" | "d = 5"
    | "d = 6" | "d = 7" | "d = 8" | "d = 9"
    by atomize_elim arith
  then show ?thesis
    by cases (simp_all add: digit_char_def isdigit_def digit_val_def)
qed




lemma digit_val_nonneg: "isdigit x \<Longrightarrow> 0 \<le> digit_val x"
  by (auto simp: isdigit_def digit_val_def less_eq_char_def)

lemma digits_value_mono:
  "\<forall>x\<in>set ds. isdigit x \<Longrightarrow> 0 \<le> N \<Longrightarrow> N \<le> digits_value N ds"
proof (induction ds arbitrary: N)
  case Nil
  then show ?case by (simp add: digits_value_def)
next
  case (Cons x ds)
  then have d: "0 \<le> digit_val x" by (simp add: digit_val_nonneg)
  with Cons.prems have "0 \<le> N * 10 + digit_val x" by simp
  with Cons.IH [of "N * 10 + digit_val x"] Cons.prems
  have "N * 10 + digit_val x \<le> digits_value (N * 10 + digit_val x) ds" by simp
  with d Cons.prems show ?case by (simp add: digits_value_def)
qed

lemma ExtractInt_loop_digits:
  "\<forall>x\<in>set ds. isdigit x \<Longrightarrow> 0 \<le> N \<Longrightarrow> digits_value N ds \<le> INT_MAX \<Longrightarrow>
     ExtractInt_loop N (ds @ r) = ExtractInt_loop (digits_value N ds) r"
proof (induction ds arbitrary: N)
  case Nil
  then show ?case by (simp add: digits_value_def)
next
  case (Cons x ds)
  let ?N = "N * 10 + digit_val x"
  from Cons.prems have x: "isdigit x" and ds: "\<forall>x\<in>set ds. isdigit x" by simp_all
  from x Cons.prems have nn: "0 \<le> ?N" using digit_val_nonneg [of x] by simp
  have dv: "digits_value N (x # ds) = digits_value ?N ds" by (simp add: digits_value_def)
  from digits_value_mono [OF ds nn] Cons.prems dv have le: "?N \<le> INT_MAX" by simp
  from Cons.IH [OF ds nn] Cons.prems dv
  have "ExtractInt_loop ?N (ds @ r) = ExtractInt_loop (digits_value ?N ds) r" by simp
  with x le dv show ?case by simp
qed

lemma show_nat_digits:
  "(\<forall>x\<in>set (show_nat m). isdigit x) \<and> show_nat m \<noteq> []
     \<and> digits_value N (show_nat m) = N * 10 ^ length (show_nat m) + int m"
proof (induction m arbitrary: N rule: show_nat.induct)
  case (1 n)
  show ?case
  proof (cases "n < 10")
    case True
    then have s: "show_nat n = [digit_char n]" by (simp add: show_nat.simps [of n])
    from digit_char_props [OF True] show ?thesis
      unfolding s by (simp add: digits_value_def)
  next
    case False
    then have s: "show_nat n = show_nat (n div 10) @ [digit_char (n mod 10)]"
      by (simp add: show_nat.simps [of n])
    have m: "n mod 10 < 10" by simp
    note ih = 1 [OF False]
    have dv: "digits_value N (show_nat n)
        = digits_value N (show_nat (n div 10)) * 10 + digit_val (digit_char (n mod 10))"
      unfolding s by (simp add: digits_value_def)
    have dm: "int (n mod 10) + 10 * int (n div 10) = int n"
      by presburger
    have "digits_value N (show_nat n) = N * 10 ^ length (show_nat n) + int n"
      unfolding dv using ih [of N] digit_char_props [OF m] dm
      by (simp add: s algebra_simps)
    with ih [of N] digit_char_props [OF m] show ?thesis
      by (simp add: s)
  qed
qed

lemma ExtractInt_loop_stop: "\<not> isdigit (peek r) \<Longrightarrow> ExtractInt_loop N r = Inr (N, r)"
  by (cases r) (auto simp: peek_def)

lemma ExtractInt_show_nat:
  assumes "int m \<le> INT_MAX" "\<not> isdigit (peek r)"
  shows "ExtractInt (show_nat m @ r) = Inr (int m, r)"
proof -
  from show_nat_digits [of m 0] have d: "\<forall>x\<in>set (show_nat m). isdigit x"
    and v: "digits_value 0 (show_nat m) = int m" by simp_all
  from ExtractInt_loop_digits [OF d, of 0 r] v assms(1)
  have "ExtractInt_loop 0 (show_nat m @ r) = ExtractInt_loop (int m) r" by simp
  with ExtractInt_loop_stop [OF assms(2)] show ?thesis by (simp add: ExtractInt_def)
qed

subsection \<open>Integers go through \<open>double\<close> unchanged\<close>

lemma bits_le: "n < 2 ^ m \<Longrightarrow> bits n \<le> m"
proof (induction n arbitrary: m rule: bits.induct)
  case (1 n)
  show ?case
  proof (cases "n = 0")
    case True
    then show ?thesis by (simp add: bits.simps [of 0])
  next
    case False
    with "1.prems" obtain m' where m: "m = Suc m'"
      by (cases m) auto
    with "1.prems" have "n div 2 < 2 ^ m'" by auto
    from "1.IH" [OF False this] m False show ?thesis
      by (simp add: bits.simps [of n])
  qed
qed

lemma bits_pos: "0 < n \<Longrightarrow> 0 < bits n"
  by (simp add: bits.simps [of n])

lemma pow2_nonpos: "k \<le> 0 \<Longrightarrow> pow2 k = 1 / 2 ^ nat (- k)"
  by (auto simp: pow2_def)

lemma round_half_even_of_int: "round_half_even (of_int k) = k"
  by (simp add: round_half_even_def)

lemma to_double_of_int:
  assumes "\<bar>i\<bar> < 2 ^ 53"
  shows "to_double (of_int i) = Finite (of_int i)"
proof (cases "i = 0")
  case True
  then show ?thesis by (simp add: to_double_def round_fmt_def)
next
  case False
  define a where "a = nat \<bar>i\<bar>"
  from False have a_pos: "0 < a" by (simp add: a_def)
  from assms have a_lt: "a < 2 ^ 53" by (simp add: a_def nat_less_iff)
  have abs: "\<bar>rat_of_int i\<bar> = of_nat a"
    by (simp add: a_def)
  define e where "e = int (bits a) - 1"
  from bits_le [OF a_lt] bits_pos [OF a_pos] have e: "0 \<le> e" "e \<le> 52"
    by (simp_all add: e_def)
  from a_pos have one: "(1::rat) \<le> of_nat a"
    by simp
  have il: "ilog2 (of_nat a) = e"
    using one by (simp add: ilog2_def e_def)
  have mx: "max e (- 1022) = e" using e by simp
  have ulp: "pow2 (e - int 53 + 1) = 1 / 2 ^ nat (52 - e)"
    using e pow2_nonpos [of "e - 52"] by simp
  have q: "(of_nat a :: rat) / (1 / 2 ^ nat (52 - e)) = of_int (int a * 2 ^ nat (52 - e))"
    by simp
  have y: "of_int (round_half_even ((of_nat a :: rat) / (1 / 2 ^ nat (52 - e)))) * (1 / 2 ^ nat (52 - e))
        = (of_nat a :: rat)"
    unfolding q round_half_even_of_int by simp
  have "(of_nat a :: rat) < 2 ^ 53"
    using a_lt by (metis of_nat_less_iff of_nat_numeral of_nat_power)
  also have "\<dots> \<le> 2 ^ 1024" by simp
  finally have small: "\<not> pow2 (1023 + 1) \<le> (of_nat a :: rat)"
    by (simp add: pow2_def)
  have sgn: "(if rat_of_int i < 0 then - of_nat a else of_nat a) = rat_of_int i"
    by (simp add: a_def)
  from False have nz: "rat_of_int i \<noteq> 0" by simp
  show ?thesis
    unfolding to_double_def round_fmt_def Let_def abs il mx ulp y
    using nz small sgn by simp
qed

lemma int_of_double_of_int:
  "INT_MIN \<le> i \<Longrightarrow> i \<le> INT_MAX \<Longrightarrow> int_of_double (Finite (of_int i)) = Inr i"
  by simp

lemma is_integral_of_int: "is_integral (Finite (of_int i))"
  by simp

lemma number_fraction_none: "peek c \<noteq> CHR ''.'' \<Longrightarrow> number_fraction N c = Inr (N, c)"
  by (simp add: number_fraction_def)

lemma number_exponent_none:
  "peek c \<noteq> CHR ''e'' \<Longrightarrow> peek c \<noteq> CHR ''E'' \<Longrightarrow> number_exponent N c = Inr (Inr (N, c))"
  by (simp add: number_exponent_def)

lemma follow_chars:
  assumes "follow c"
  shows "\<not> isdigit (peek c)" "peek c \<noteq> CHR ''.''" "peek c \<noteq> CHR ''e''" "peek c \<noteq> CHR ''E''"
    "peek c \<noteq> CHR ''-''" "peek c \<noteq> QUOTE" "peek c \<noteq> CHR ''{''" "peek c \<noteq> CHR ''[''"
    "peek c \<noteq> CHR ''t''" "peek c \<noteq> CHR ''f''" "peek c \<noteq> CHR ''n''"
  using assms by (auto simp: follow_def isdigit_def)

lemma number_value_digits:
  assumes "int m \<le> INT_MAX" "follow r"
  shows "number_value (show_nat m @ r) = Inr (Inr (Finite (of_nat m), r))"
proof -
  from show_nat_digits [of m 0] obtain x xs where s: "show_nat m = x # xs" and x: "isdigit x"
    by (cases "show_nat m") auto
  from x have notneg: "peek (show_nat m @ r) \<noteq> CHR ''-''"
    by (auto simp: s peek_def isdigit_def)
  have e: "ExtractInt (show_nat m @ r) = Inr (int m, r)"
    using assms by (simp add: ExtractInt_show_nat follow_chars)
  from assms(1) have "\<bar>int m * 1\<bar> < 2 ^ 53" by (simp add: INT_MAX_def)
  then have md: "to_double (rat_of_int (int m * 1)) = Finite (rat_of_int (int m * 1))"
    by (rule to_double_of_int)
  show ?thesis
    using notneg e md assms(2)
    by (simp add: number_value_def number_fraction_none number_exponent_none follow_chars
        double_of_int_def)
qed

lemma number_value_minus_digits:
  assumes "int m \<le> INT_MAX" "follow r"
  shows "number_value (CHR ''-'' # show_nat m @ r) = Inr (Inr (Finite (- of_nat m), r))"
proof -
  have e: "ExtractInt (show_nat m @ r) = Inr (int m, r)"
    using assms by (simp add: ExtractInt_show_nat follow_chars)
  from assms(1) have "\<bar>- int m\<bar> < 2 ^ 53" by (simp add: INT_MAX_def)
  then have "to_double (rat_of_int (- int m)) = Finite (rat_of_int (- int m))"
    by (rule to_double_of_int)
  then have md: "to_double (- rat_of_nat m) = Finite (- rat_of_nat m)"
    by simp
  have neg: "peek (CHR ''-'' # show_nat m @ r) = CHR ''-''"
    by (simp add: peek_def)
  show ?thesis
    using e md assms(2) neg
    by (simp add: number_value_def number_fraction_none number_exponent_none follow_chars
        double_of_int_def)
qed

lemma ParseNumber_show_int:
  assumes "INT_MIN < i" "i \<le> INT_MAX" "follow r"
  shows "ParseNumber n (show_int i @ r)
           = Inr (Error_None, set_Variant (V_int i) (set_Type ValueType_Variant n), r)"
proof (cases "i < 0")
  case True
  define m where "m = nat (- i)"
  from True have i: "i = - int m" by (simp add: m_def)
  from assms(1) True have m: "int m \<le> INT_MAX"
    by (simp add: m_def INT_MIN_def INT_MAX_def)
  have text_eq: "show_int i @ r = CHR ''-'' # show_nat m @ r"
    using True by (simp add: show_int_def m_def)
  have st: "number_store n (Finite (- of_nat m)) r
      = Inr (Error_None, set_Variant (V_int i) (set_Type ValueType_Variant n), r)"
    using int_of_double_of_int [of i] is_integral_of_int [of i] assms i
    by (simp add: number_store_def)
  show ?thesis
    unfolding text_eq using number_value_minus_digits [OF m assms(3)] st
    by (simp add: ParseNumber_def peek_def)
next
  case False
  define m where "m = nat i"
  from False have i: "i = int m" by (simp add: m_def)
  from assms(2) i have m: "int m \<le> INT_MAX" by simp
  have text_eq: "show_int i @ r = show_nat m @ r"
    using False by (simp add: show_int_def m_def)
  from show_nat_digits [of m 0] obtain x xs where s: "show_nat m = x # xs" and x: "isdigit x"
    by (cases "show_nat m") auto
  have start: "isdigit (peek (show_nat m @ r))"
    using x by (simp add: s peek_def)
  have st: "number_store n (Finite (of_nat m)) r
      = Inr (Error_None, set_Variant (V_int i) (set_Type ValueType_Variant n), r)"
    using int_of_double_of_int [of i] is_integral_of_int [of i] assms i
    by (simp add: number_store_def)
  show ?thesis
    unfolding text_eq using number_value_digits [OF m assms(3)] st start
    by (simp add: ParseNumber_def)
qed

subsection \<open>Scalars\<close>

lemma take_peek: "take (Suc k) c = x # xs \<Longrightarrow> peek c = x"
  by (cases c) (auto simp: peek_def)

lemma ParseString_other: "peek c \<noteq> QUOTE \<Longrightarrow> ParseString n c = Inr (Undefined, n, c)"
  by (simp add: ParseString_def)

lemma ParseBool_other:
  assumes "peek c \<noteq> CHR ''t''" "peek c \<noteq> CHR ''f''"
  shows "ParseBool n c = Inr (Undefined, n, c)"
proof -
  have "take 4 c \<noteq> ''true''"
    using take_peek [of 3 c "CHR ''t''" "''rue''"] assms(1) by (auto simp: numeral_eq_Suc)
  moreover have "take 5 c \<noteq> ''false''"
    using take_peek [of 4 c "CHR ''f''" "''alse''"] assms(2) by (auto simp: numeral_eq_Suc)
  ultimately show ?thesis by (simp add: ParseBool_def)
qed

lemma ParseNull_other:
  assumes "peek c \<noteq> CHR ''n''"
  shows "ParseNull n c = Inr (Undefined, n, c)"
proof -
  have "take 4 c \<noteq> ''null''"
    using take_peek [of 3 c "CHR ''n''" "''ull''"] assms by (auto simp: numeral_eq_Suc)
  then show ?thesis by (simp add: ParseNull_def)
qed

lemma ParseNumber_other:
  "peek c \<noteq> CHR ''-'' \<Longrightarrow> \<not> isdigit (peek c) \<Longrightarrow> ParseNumber n c = Inr (Undefined, n, c)"
  by (simp add: ParseNumber_def)

lemma ParseObject_other:
  "peek c \<noteq> CHR ''{'' \<Longrightarrow> exec (Call_ParseObject e0 n c) = Some (Inr (Undefined, n, c))"
  by (simp add: exec_ParseObject)

lemma ParseArray_other:
  "peek c \<noteq> CHR ''['' \<Longrightarrow> exec (Call_ParseArray e0 n c) = Some (Inr (Undefined, n, c))"
  by (simp add: exec_ParseArray)

lemma quiet_Check: "quiet outer \<Longrightarrow> \<not> Check outer Error_None \<and> \<not> Check outer Undefined"
  by (auto simp: quiet_def Check_def captured_def)

lemma quiet_captured:
  "quiet outer \<Longrightarrow> e = Error_None \<or> e = Undefined \<Longrightarrow> quiet (Some (captured outer e))"
  by (auto simp: quiet_def captured_def)

text \<open>The end of \<open>Parse\<close> once a scalar production has read its value: the two container
  productions find nothing at a character that follows a value.\<close>

lemma Parse_after_scalars:
  assumes "scalar_productions outer n (SkipSpace c) = Inr (e4, n4, c4)"
    and "follow c4" "quiet outer"
  shows "exec (Call_Parse outer n c) = Some (Inr (Error_None, n4, c4))"
  using assms(1) follow_chars [OF assms(2)] quiet_Check [OF assms(3)]
  by (simp add: exec_Parse ParseObject_other ParseArray_other)

lemma scalars_after_string:
  assumes "QUOTE \<notin> set s" "follow r" "quiet outer"
  shows "scalar_productions outer Node_default (QUOTE # s @ QUOTE # r)
           = Inr (Undefined, Node_scalar (V_string s), r)"
proof -
  have "ParseString Node_default (QUOTE # s @ QUOTE # r)
      = Inr (Error_None, Node_scalar (V_string s), r)"
    using assms(1)
    by (simp add: ParseString_def peek_def ExtractString_to_quote set_Type_def set_Variant_def
        Node_default_def Node_scalar_def)
  then show ?thesis
    using follow_chars [OF assms(2)] quiet_Check [OF assms(3)]
    by (simp add: scalar_productions_def ParseBool_other ParseNull_other ParseNumber_other)
qed

lemma scalars_after_bool:
  assumes "follow r" "quiet outer"
  shows "scalar_productions outer Node_default ((if b then ''true'' else ''false'') @ r)
           = Inr (Undefined, Node_scalar (V_bool b), r)"
proof -
  have s: "ParseString Node_default ((if b then ''true'' else ''false'') @ r)
      = Inr (Undefined, Node_default, (if b then ''true'' else ''false'') @ r)"
    by (rule ParseString_other) (simp add: peek_def)
  have "ParseBool Node_default ((if b then ''true'' else ''false'') @ r)
      = Inr (Error_None, Node_scalar (V_bool b), r)"
    by (simp add: ParseBool_def set_Type_def set_Variant_def Node_default_def Node_scalar_def)
  with s show ?thesis
    using follow_chars [OF assms(1)] quiet_Check [OF assms(2)]
    by (simp add: scalar_productions_def ParseNull_other ParseNumber_other)
qed

lemma scalars_after_null:
  assumes "follow r" "quiet outer"
  shows "scalar_productions outer Node_default (''null'' @ r)
           = Inr (Undefined, Node_scalar V_nullptr, r)"
proof -
  have s: "ParseString Node_default (''null'' @ r) = Inr (Undefined, Node_default, ''null'' @ r)"
    by (rule ParseString_other) (simp add: peek_def)
  have b: "ParseBool Node_default (''null'' @ r) = Inr (Undefined, Node_default, ''null'' @ r)"
    by (rule ParseBool_other) (simp_all add: peek_def)
  have "ParseNull Node_default (''null'' @ r) = Inr (Error_None, Node_scalar V_nullptr, r)"
    by (simp add: ParseNull_def set_Type_def set_Variant_def Node_default_def Node_scalar_def)
  with s b show ?thesis
    using follow_chars [OF assms(1)] quiet_Check [OF assms(2)]
    by (simp add: scalar_productions_def ParseNumber_other)
qed

lemma show_int_start:
  "\<exists>x xs. show_int i = x # xs \<and> (x = CHR ''-'' \<or> isdigit x)"
proof (cases "i < 0")
  case True
  then show ?thesis by (simp add: show_int_def)
next
  case False
  from show_nat_digits [of "nat i" 0] obtain x xs where "show_nat (nat i) = x # xs" "isdigit x"
    by (cases "show_nat (nat i)") auto
  with False show ?thesis by (simp add: show_int_def)
qed

lemma digit_not_letter:
  "x = CHR ''-'' \<or> isdigit x \<Longrightarrow>
     x \<noteq> QUOTE \<and> x \<noteq> CHR ''t'' \<and> x \<noteq> CHR ''f'' \<and> x \<noteq> CHR ''n'' \<and> \<not> isspace x \<and> x \<noteq> NUL"
  by (auto simp: isdigit_def isspace_def)

lemma scalars_after_int:
  assumes "INT_MIN < i" "i \<le> INT_MAX" "follow r" "quiet outer"
  shows "scalar_productions outer Node_default (show_int i @ r)
           = Inr (Error_None, Node_scalar (V_int i), r)"
proof -
  from show_int_start [of i] obtain x xs where sh: "show_int i = x # xs"
    and x: "x = CHR ''-'' \<or> isdigit x" by blast
  have pk: "peek (show_int i @ r) = x" by (simp add: sh peek_def)
  note nl = digit_not_letter [OF x]
  have s: "ParseString Node_default (show_int i @ r) = Inr (Undefined, Node_default, show_int i @ r)"
    by (rule ParseString_other) (simp add: pk nl)
  have b: "ParseBool Node_default (show_int i @ r) = Inr (Undefined, Node_default, show_int i @ r)"
    by (rule ParseBool_other) (simp_all add: pk nl)
  have u: "ParseNull Node_default (show_int i @ r) = Inr (Undefined, Node_default, show_int i @ r)"
    by (rule ParseNull_other) (simp add: pk nl)
  have "ParseNumber Node_default (show_int i @ r) = Inr (Error_None, Node_scalar (V_int i), r)"
    using ParseNumber_show_int [OF assms(1,2,3), of Node_default]
    by (simp add: set_Type_def set_Variant_def Node_default_def Node_scalar_def)
  with s b u show ?thesis
    using quiet_Check [OF assms(4)]
    by (simp add: scalar_productions_def)
qed

lemma Save_start:
  assumes "plain_scalar v"
  shows "\<exists>x xs. Save fmt v = x # xs \<and> value_start x"
proof (cases v)
  case (V_int i)
  from show_int_start [of i] show ?thesis
    by (auto simp: V_int value_start_def)
qed (use assms in \<open>auto simp: value_start_def\<close>)

lemma value_start_not_space: "value_start x \<Longrightarrow> \<not> isspace x \<and> x \<noteq> NUL \<and> x \<noteq> CHR '']'' \<and> x \<noteq> CHR ''}''"
  by (auto simp: value_start_def isspace_def isdigit_def)

lemma reads_scalar:
  assumes "plain_scalar v" "follow r" "quiet outer"
  shows "exec (Call_Parse outer Node_default (Save fmt v @ r))
           = Some (Inr (Error_None, Node_scalar v, r))"
proof -
  from Save_start [OF assms(1)] obtain x xs where sv: "Save fmt v = x # xs" and x: "value_start x"
    by blast
  have ns: "SkipSpace (Save fmt v @ r) = Save fmt v @ r"
    by (rule SkipSpace_nonspace) (simp add: sv peek_def value_start_not_space [OF x])
  have "\<exists>e4. scalar_productions outer Node_default (Save fmt v @ r) = Inr (e4, Node_scalar v, r)"
  proof (cases v)
    case (V_string s)
    with assms scalars_after_string [of s r outer] show ?thesis by simp
  next
    case (V_int i)
    with assms scalars_after_int [of i r outer] show ?thesis by simp
  next
    case (V_float f)
    with assms show ?thesis by simp
  next
    case (V_bool b)
    with assms scalars_after_bool [of r outer b] show ?thesis by auto
  next
    case V_nullptr
    with assms scalars_after_null [of r outer] show ?thesis by simp
  qed
  then obtain e4 where "scalar_productions outer Node_default (SkipSpace (Save fmt v @ r))
      = Inr (e4, Node_scalar v, r)"
    unfolding ns by blast
  from Parse_after_scalars [OF this assms(2,3)] show ?thesis .
qed

subsection \<open>Nodes, members and elements\<close>

lemma map_assign_last:
  "\<forall>x\<in>fst ` set m. x < k \<Longrightarrow> map_assign k v m = m @ [(k, v)]"
  by (induction m) auto

lemma fold_map_assign_sorted:
  "sorted_wrt (<) (map fst (pre @ ms)) \<Longrightarrow>
     fold (\<lambda>(k, v) m. map_assign k v m) ms pre = pre @ ms"
proof (induction ms arbitrary: pre)
  case Nil
  then show ?case by simp
next
  case (Cons a ms)
  obtain k v where a: "a = (k, v)" by (cases a)
  from Cons.prems have "\<forall>x\<in>fst ` set pre. x < k"
    by (auto simp: a sorted_wrt_append)
  then have step: "map_assign k v pre = pre @ [(k, v)]"
    by (rule map_assign_last)
  from Cons.prems have "sorted_wrt (<) (map fst ((pre @ [(k, v)]) @ ms))"
    by (simp add: a)
  from Cons.IH [OF this] step show ?case
    by (simp add: a)
qed

lemma scalars_none:
  assumes "peek c = CHR ''['' \<or> peek c = CHR ''{''" "quiet outer"
  shows "scalar_productions outer n c = Inr (Undefined, n, c)"
proof -
  from assms(1) have p: "peek c \<noteq> QUOTE" "peek c \<noteq> CHR ''t''" "peek c \<noteq> CHR ''f''"
    "peek c \<noteq> CHR ''n''" "peek c \<noteq> CHR ''-''" "\<not> isdigit (peek c)"
    by (auto simp: isdigit_def)
  show ?thesis
    using quiet_Check [OF assms(2)]
    by (simp add: scalar_productions_def ParseString_other ParseBool_other ParseNull_other
        ParseNumber_other p)
qed

lemma reads_nodeD:
  "reads_node fmt L n \<Longrightarrow> plain n \<Longrightarrow> quiet outer \<Longrightarrow>
     follow ((if L = 0 then [NEWLINE] else []) @ r) \<Longrightarrow>
     exec (Call_Parse outer Node_default (print fmt L n @ r))
       = Some (Inr (Error_None, n, (if L = 0 then [NEWLINE] else []) @ r))"
  unfolding reads_node_def by blast

lemma reads_membersD:
  "reads_members fmt L ms \<Longrightarrow> ms \<noteq> [] \<Longrightarrow> plain_members ms \<Longrightarrow> 0 < L \<Longrightarrow>
     quiet (Some e0) \<Longrightarrow> \<forall>x\<in>set ws. isspace x \<Longrightarrow> \<forall>x\<in>set cl. isspace x \<Longrightarrow>
     exec (Call_ObjectLoop e0 acc (ws @ print_members fmt L ms @ cl @ CHR ''}'' # r))
       = Some (Inr (Error_None,
           set_Object (fold (\<lambda>(k, v) m. map_assign k v m) ms (Object acc))
             (set_Type ValueType_Object acc), r))"
  unfolding reads_members_def by blast

lemma reads_elementsD:
  "reads_elements fmt L es \<Longrightarrow> es \<noteq> [] \<Longrightarrow> plain_elements es \<Longrightarrow>
     quiet (Some e0) \<Longrightarrow> \<forall>x\<in>set ws. isspace x \<Longrightarrow>
     exec (Call_ArrayLoop e0 acc (ws @ print_elements fmt L es @ CHR '']'' # r))
       = Some (Inr (Error_None, set_Array (Array acc @ es) (set_Type ValueType_Array acc), r))"
  unfolding reads_elements_def by blast

lemma reads_node_scalar:
  "reads_node fmt L (Node v arr obj ValueType_Variant)"
proof -
  have "exec (Call_Parse outer Node_default (print fmt L (Node v arr obj ValueType_Variant) @ r))
            = Some (Inr (Error_None, Node v arr obj ValueType_Variant,
                (if L = 0 then [NEWLINE] else []) @ r))"
    if pl: "plain (Node v arr obj ValueType_Variant)" and q: "quiet outer"
      and f: "follow ((if L = 0 then [NEWLINE] else []) @ r)" for outer r
  proof -
    from pl have v: "plain_scalar v" and n: "Node v arr obj ValueType_Variant = Node_scalar v"
      by (simp_all add: Node_scalar_def)
    from reads_scalar [OF v f q, of fmt] show ?thesis
      unfolding n by (simp add: Node_scalar_def)
  qed
  then show ?thesis
    unfolding reads_node_def by blast
qed

lemma reads_node_array:
  assumes ih: "reads_elements fmt L arr"
  shows "reads_node fmt L (Node v arr obj ValueType_Array)"
proof -
  have "exec (Call_Parse outer Node_default (print fmt L (Node v arr obj ValueType_Array) @ r))
            = Some (Inr (Error_None, Node v arr obj ValueType_Array,
                (if L = 0 then [NEWLINE] else []) @ r))"
    if pl: "plain (Node v arr obj ValueType_Array)" and q: "quiet outer"
      and f: "follow ((if L = 0 then [NEWLINE] else []) @ r)" for outer r
  proof -
    define tail where "tail = (if L = 0 then [NEWLINE] else []) @ r"
    define body where "body = print_elements fmt L arr @ CHR '']'' # tail"
    from pl have v: "v = V_string []" and obj: "obj = []" and ne: "arr \<noteq> []"
      and pe: "plain_elements arr"
      by simp_all
    have text_eq: "print fmt L (Node v arr obj ValueType_Array) @ r = CHR ''['' # body"
      by (simp add: body_def tail_def)
    have sk: "SkipSpace (CHR ''['' # body) = CHR ''['' # body"
      by (simp add: isspace_def)
    have pk: "peek (CHR ''['' # body) = CHR ''[''"
      by (simp add: peek_def)
    have sc: "scalar_productions outer Node_default (CHR ''['' # body)
        = Inr (Undefined, Node_default, CHR ''['' # body)"
      by (rule scalars_none) (simp_all add: pk q)
    have qe: "quiet (Some (captured outer Undefined))"
      by (rule quiet_captured [OF q]) simp
    have loop:
      "exec (Call_ArrayLoop (captured outer Undefined) Node_default body)
        = Some (Inr (Error_None,
            set_Array (Array Node_default @ arr) (set_Type ValueType_Array Node_default), tail))"
      using reads_elementsD [OF ih ne pe qe, of "[]" Node_default tail]
      by (simp add: body_def)
    have node: "set_Array (Array Node_default @ arr) (set_Type ValueType_Array Node_default)
        = Node v arr obj ValueType_Array"
      by (simp add: set_Array_def set_Type_def Node_default_def v obj)
    have arr_call: "exec (Call_ParseArray (captured outer Undefined) Node_default (CHR ''['' # body))
        = Some (Inr (Error_None, Node v arr obj ValueType_Array, tail))"
      using loop by (simp add: exec_ParseArray pk node)
    have obj_call: "exec (Call_ParseObject (captured outer Undefined) Node_default (CHR ''['' # body))
        = Some (Inr (Undefined, Node_default, CHR ''['' # body))"
      by (rule ParseObject_other) (simp add: pk)
    show ?thesis
      unfolding text_eq tail_def [symmetric] exec_Parse sk sc
      using quiet_Check [OF q]
      by (simp add: obj_call arr_call)
  qed
  then show ?thesis
    unfolding reads_node_def by blast
qed

lemma print_start:
  assumes "plain n"
  shows "\<exists>ws x xs. print fmt L n = ws @ x # xs \<and> (\<forall>y\<in>set ws. isspace y) \<and> value_start x"
proof -
  obtain v arr obj ty where n: "n = Node v arr obj ty" by (cases n)
  show ?thesis
  proof (cases ty)
    case ValueType_Variant
    with assms n have "plain_scalar v" by simp
    from Save_start [OF this, of fmt] obtain x xs where s: "Save fmt v = x # xs" and x: "value_start x"
      by blast
    have "print fmt L n = [] @ x # (xs @ (if L = 0 then [NEWLINE] else []))"
      by (simp add: n ValueType_Variant s)
    with x show ?thesis by (metis empty_iff list.set(1))
  next
    case ValueType_Array
    have "print fmt L n
        = [] @ CHR ''['' # (print_elements fmt L arr @ '']'' @ (if L = 0 then [NEWLINE] else []))"
      by (simp add: n ValueType_Array)
    moreover have "value_start (CHR ''['')" by (simp add: value_start_def)
    ultimately show ?thesis by (metis empty_iff list.set(1))
  next
    case ValueType_Object
    let ?ws = "(if L \<noteq> 0 then [NEWLINE] else []) @ Tabs L"
    have "print fmt L n
        = ?ws @ CHR ''{'' # (NEWLINE # print_members fmt (Suc L) obj @ Tabs L @ ''}''
            @ (if L = 0 then [NEWLINE] else []))"
      by (simp add: n ValueType_Object)
    moreover have "\<forall>y\<in>set ?ws. isspace y"
      using Tabs_spaces [of L] by (auto simp: isspace_def)
    moreover have "value_start (CHR ''{'')" by (simp add: value_start_def)
    ultimately show ?thesis by blast
  qed
qed

lemma print_start_peek:
  assumes "plain n" "\<forall>y\<in>set ws. isspace y"
  shows "value_start (peek (SkipSpace (ws @ print fmt L n @ r)))
         \<and> peek (ws @ print fmt L n @ r) \<noteq> NUL"
proof -
  from print_start [OF assms(1), of fmt L] obtain ws' x xs where
    p: "print fmt L n = ws' @ x # xs" and w: "\<forall>y\<in>set ws'. isspace y" and x: "value_start x"
    by blast
  have eq: "ws @ print fmt L n @ r = (ws @ ws') @ x # (xs @ r)"
    by (simp add: p)
  from assms(2) w have sp: "\<forall>y\<in>set (ws @ ws'). isspace y" by auto
  have "SkipSpace (ws @ print fmt L n @ r) = SkipSpace (x # (xs @ r))"
    unfolding eq by (rule SkipSpace_spaces [OF sp])
  also have "\<dots> = x # (xs @ r)"
    by (rule SkipSpace_nonspace) (simp add: peek_def value_start_not_space [OF x])
  finally have a: "peek (SkipSpace (ws @ print fmt L n @ r)) = x"
    by (simp add: peek_def)
  have b: "peek (ws @ print fmt L n @ r) \<noteq> NUL"
  proof (cases "ws @ ws'")
    case Nil
    then show ?thesis
      unfolding eq using value_start_not_space [OF x] by (simp add: peek_def)
  next
    case (Cons y ys)
    with sp have "isspace y" by auto
    then have "y \<noteq> NUL" by (auto simp: isspace_def)
    with Cons show ?thesis
      unfolding eq by (simp add: peek_def)
  qed
  from a b x show ?thesis by simp
qed

lemma exec_Parse_spaces:
  "\<forall>y\<in>set ws. isspace y \<Longrightarrow>
     exec (Call_Parse outer n (SkipSpace (ws @ c))) = exec (Call_Parse outer n c)"
  by (simp add: SkipSpace_spaces exec_Parse_SkipSpace)

lemma follow_simps:
  "follow (NEWLINE # c)" "follow (CHR '','' # c)" "follow (CHR '']'' # c)" "follow (CHR ''}'' # c)"
  by (simp_all add: follow_def peek_def)

lemma reads_elements_Cons:
  assumes ih1: "reads_node fmt L E" and ih2: "reads_elements fmt L es"
  shows "reads_elements fmt L (E # es)"
proof -
  have "exec (Call_ArrayLoop e0 acc (ws @ print_elements fmt L (E # es) @ CHR '']'' # r))
            = Some (Inr (Error_None,
                set_Array (Array acc @ E # es) (set_Type ValueType_Array acc), r))"
    if pl: "plain_elements (E # es)" and q: "quiet (Some e0)" and ws: "\<forall>x\<in>set ws. isspace x"
    for e0 acc ws r
  proof -
    from pl have pE: "plain E" and pes: "plain_elements es" by simp_all
    define rE where "rE = (if es = [] then [] else '', '') @ print_elements fmt L es @ CHR '']'' # r"
    define nl where "nl = (if L = 0 then [NEWLINE] else [])"
    define c where "c = ws @ print fmt L E @ rE"
    define acc' where "acc' = set_Array (Array acc @ [E]) (set_Type ValueType_Array acc)"
    have c_eq: "ws @ print_elements fmt L (E # es) @ CHR '']'' # r = c"
      by (simp add: c_def rE_def)
    have rE_first: "peek rE = (if es = [] then CHR '']'' else CHR '','')"
      by (simp add: rE_def peek_def)
    have fol: "follow (nl @ rE)"
      by (cases "L = 0"; cases "es = []") (simp_all add: nl_def rE_def follow_simps)
    from print_start_peek [OF pE ws, of fmt L rE]
    have vs: "value_start (peek (SkipSpace c))" and nn: "peek c \<noteq> NUL"
      by (simp_all add: c_def)
    from value_start_not_space [OF vs] have nb: "peek (SkipSpace c) \<noteq> CHR '']''"
      by simp
    have elem: "exec (Call_Parse (Some e0) Node_default (SkipSpace c))
        = Some (Inr (Error_None, E, nl @ rE))"
      unfolding c_def exec_Parse_spaces [OF ws]
      using reads_nodeD [OF ih1 pE q, of rE] fol by (simp add: nl_def)
    have nls: "\<forall>y\<in>set nl. isspace y"
      by (simp add: nl_def isspace_def)
    have "\<not> isspace (peek rE)"
      by (simp add: rE_first isspace_def)
    then have sk: "SkipSpace (nl @ rE) = rE"
      by (simp add: SkipSpace_spaces [OF nls] SkipSpace_nonspace)
    have step: "exec (Call_ArrayLoop e0 acc c)
        = (if es = [] then Some (Inr (Error_None, acc', tl rE))
           else exec (Call_ArrayLoop e0 acc' (tl rE)))"
      by (subst exec_ArrayLoop) (simp add: nn nb elem sk rE_first acc'_def)
    show ?thesis
    proof (cases "es = []")
      case True
      then have "tl rE = r" by (simp add: rE_def)
      with step True show ?thesis
        unfolding c_eq by (simp add: acc'_def)
    next
      case False
      then have t: "tl rE = [CHR '' ''] @ print_elements fmt L es @ CHR '']'' # r"
        by (simp add: rE_def)
      have sp: "\<forall>x\<in>set [CHR '' '']. isspace x" by (simp add: isspace_def)
      have "exec (Call_ArrayLoop e0 acc' (tl rE))
          = Some (Inr (Error_None, set_Array (Array acc' @ es) (set_Type ValueType_Array acc'), r))"
        unfolding t by (rule reads_elementsD [OF ih2 False pes q sp])
      moreover have "set_Array (Array acc' @ es) (set_Type ValueType_Array acc')
          = set_Array (Array acc @ E # es) (set_Type ValueType_Array acc)"
        by (simp add: acc'_def set_Array_def set_Type_def)
      ultimately show ?thesis
        unfolding c_eq using step False by simp
    qed
  qed
  then show ?thesis
    unfolding reads_elements_def by blast
qed

lemma reads_members_Cons:
  assumes ih1: "reads_node fmt L N" and ih2: "reads_members fmt L ms"
  shows "reads_members fmt L ((k, N) # ms)"
proof -
  have "exec (Call_ObjectLoop e0 acc (ws @ print_members fmt L ((k, N) # ms) @ cl @ CHR ''}'' # r))
            = Some (Inr (Error_None,
                set_Object (fold (\<lambda>(k, v) m. map_assign k v m) ((k, N) # ms) (Object acc))
                  (set_Type ValueType_Object acc), r))"
    if pl: "plain_members ((k, N) # ms)" and L: "0 < L" and q: "quiet (Some e0)"
      and ws: "\<forall>x\<in>set ws. isspace x" and cl: "\<forall>x\<in>set cl. isspace x"
    for e0 acc ws cl r
  proof -
    from pl have pk: "QUOTE \<notin> set k" and pN: "plain N" and pms: "plain_members ms" by simp_all
    define rN where "rN = (if ms \<noteq> [] then '','' else []) @ NEWLINE # print_members fmt L ms
        @ cl @ CHR ''}'' # r"
    define val where "val = print fmt L N @ rN"
    define c1 where "c1 = QUOTE # CHR '':'' # CHR '' '' # val"
    define c0 where "c0 = QUOTE # k @ c1"
    define c where "c = (ws @ Tabs L) @ c0"
    define acc' where "acc' = set_Object (map_assign k N (Object acc)) (set_Type ValueType_Object acc)"
    have c_eq: "ws @ print_members fmt L ((k, N) # ms) @ cl @ CHR ''}'' # r = c"
      by (simp add: c_def c0_def c1_def val_def rN_def)
    have wt: "\<forall>x\<in>set (ws @ Tabs L). isspace x"
      using ws Tabs_spaces [of L] by auto
    from L obtain L' where "L = Suc L'" by (cases L) auto
    then have "Tabs L = TAB # Tabs L'" by (simp add: Tabs_def)
    then obtain y ys where "ws @ Tabs L = y # ys"
      by (cases ws) auto
    with wt have nn: "peek c \<noteq> NUL"
      by (auto simp: c_def peek_def isspace_def)
    have "SkipSpace c = SkipSpace c0"
      unfolding c_def by (rule SkipSpace_spaces [OF wt])
    also have "\<dots> = c0"
      by (rule SkipSpace_nonspace) (simp add: c0_def peek_def isspace_def)
    finally have sk0: "SkipSpace c = c0" .
    have p0: "peek c0 = QUOTE" by (simp add: c0_def peek_def)
    have ex: "ExtractString (tl c0) = Inr (k, c1)"
      using ExtractString_to_quote [OF pk, of "CHR '':'' # CHR '' '' # val"]
      by (simp add: c0_def c1_def)
    have p1: "peek c1 = QUOTE" by (simp add: c1_def peek_def)
    have sk1: "SkipSpace (tl c1) = CHR '':'' # CHR '' '' # val"
      by (simp add: c1_def isspace_def)
    have sk2: "SkipSpace (tl (SkipSpace (tl c1))) = SkipSpace ([CHR '' ''] @ val)"
      by (simp add: sk1)
    have p2: "peek (SkipSpace (tl c1)) = CHR '':''"
      by (simp add: sk1 peek_def)
    have sp: "\<forall>x\<in>set [CHR '' '']. isspace x" by (simp add: isspace_def)
    have fol: "follow rN"
      by (cases "ms = []") (simp_all add: rN_def follow_simps)
    have member: "exec (Call_Parse (Some e0) Node_default (SkipSpace (tl (SkipSpace (tl c1)))))
        = Some (Inr (Error_None, N, rN))"
      unfolding sk2 exec_Parse_spaces [OF sp] val_def
      using reads_nodeD [OF ih1 pN q, of rN] fol L by simp
    have step: "exec (Call_ObjectLoop e0 acc c)
        = (if peek (SkipSpace rN) = CHR ''}'' then Some (Inr (Error_None, acc', tl (SkipSpace rN)))
           else if peek (SkipSpace rN) \<noteq> CHR '',''
             then Some (Inr (MissedComma,
                    set_Object [] (set_Type ValueType_Object acc), SkipSpace rN))
           else exec (Call_ObjectLoop e0 acc' (tl (SkipSpace rN))))"
      by (subst exec_ObjectLoop) (simp add: nn sk0 p0 ex p1 p2 member acc'_def)
    show ?thesis
    proof (cases "ms = []")
      case True
      have "\<forall>x\<in>set (NEWLINE # cl). isspace x"
        using cl by (simp add: isspace_def)
      from SkipSpace_spaces [OF this, of "CHR ''}'' # r"]
      have "SkipSpace rN = CHR ''}'' # r"
        by (simp add: rN_def True isspace_def)
      with step True show ?thesis
        unfolding c_eq by (simp add: acc'_def peek_def)
    next
      case False
      then have sk: "SkipSpace rN = rN" and pr: "peek rN = CHR '',''"
        and t: "tl rN = [NEWLINE] @ print_members fmt L ms @ cl @ CHR ''}'' # r"
        by (simp_all add: rN_def isspace_def peek_def)
      have nls: "\<forall>x\<in>set [NEWLINE]. isspace x" by (simp add: isspace_def)
      have "exec (Call_ObjectLoop e0 acc' (tl rN))
          = Some (Inr (Error_None,
                set_Object (fold (\<lambda>(k, v) m. map_assign k v m) ms (Object acc'))
                  (set_Type ValueType_Object acc'), r))"
        unfolding t by (rule reads_membersD [OF ih2 False pms L q nls cl])
      moreover have "set_Object (fold (\<lambda>(k, v) m. map_assign k v m) ms (Object acc'))
                  (set_Type ValueType_Object acc')
          = set_Object (fold (\<lambda>(k, v) m. map_assign k v m) ((k, N) # ms) (Object acc))
                  (set_Type ValueType_Object acc)"
        by (simp add: acc'_def set_Object_def set_Type_def)
      ultimately show ?thesis
        unfolding c_eq using step sk pr by simp
    qed
  qed
  then show ?thesis
    unfolding reads_members_def by blast
qed

lemma reads_node_object:
  assumes ih: "reads_members fmt (Suc L) obj"
  shows "reads_node fmt L (Node v arr obj ValueType_Object)"
proof -
  have "exec (Call_Parse outer Node_default (print fmt L (Node v arr obj ValueType_Object) @ r))
            = Some (Inr (Error_None, Node v arr obj ValueType_Object,
                (if L = 0 then [NEWLINE] else []) @ r))"
    if pl: "plain (Node v arr obj ValueType_Object)" and q: "quiet outer"
      and f: "follow ((if L = 0 then [NEWLINE] else []) @ r)" for outer r
  proof -
    define tail where "tail = (if L = 0 then [NEWLINE] else []) @ r"
    define body where "body = [NEWLINE] @ print_members fmt (Suc L) obj @ Tabs L @ CHR ''}'' # tail"
    define ws where "ws = (if L \<noteq> 0 then [NEWLINE] else []) @ Tabs L"
    from pl have v: "v = V_string []" and arr: "arr = []" and ne: "obj \<noteq> []"
      and so: "sorted_wrt (<) (map fst obj)" and pm: "plain_members obj"
      by simp_all
    have text_eq: "print fmt L (Node v arr obj ValueType_Object) @ r = ws @ CHR ''{'' # body"
      by (simp add: body_def tail_def ws_def)
    have wsp: "\<forall>x\<in>set ws. isspace x"
      using Tabs_spaces [of L] by (auto simp: ws_def isspace_def)
    have strip: "exec (Call_Parse outer Node_default (ws @ CHR ''{'' # body))
        = exec (Call_Parse outer Node_default (CHR ''{'' # body))"
      using exec_Parse_spaces [OF wsp, of outer Node_default "CHR ''{'' # body"]
      by (simp add: exec_Parse_SkipSpace)
    have sk: "SkipSpace (CHR ''{'' # body) = CHR ''{'' # body"
      by (simp add: isspace_def)
    have pk: "peek (CHR ''{'' # body) = CHR ''{''"
      by (simp add: peek_def)
    have sc: "scalar_productions outer Node_default (CHR ''{'' # body)
        = Inr (Undefined, Node_default, CHR ''{'' # body)"
      by (rule scalars_none) (simp_all add: pk q)
    have qe: "quiet (Some (captured outer Undefined))"
      by (rule quiet_captured [OF q]) simp
    have nls: "\<forall>x\<in>set [NEWLINE]. isspace x" by (simp add: isspace_def)
    have loop: "exec (Call_ObjectLoop (captured outer Undefined) Node_default body)
        = Some (Inr (Error_None,
            set_Object (fold (\<lambda>(k, v) m. map_assign k v m) obj (Object Node_default))
              (set_Type ValueType_Object Node_default), tail))"
      unfolding body_def
      by (rule reads_membersD [OF ih ne pm _ qe nls Tabs_spaces]) simp
    have "fold (\<lambda>(k, v) m. map_assign k v m) obj [] = [] @ obj"
      by (rule fold_map_assign_sorted) (simp add: so)
    then have node: "set_Object (fold (\<lambda>(k, v) m. map_assign k v m) obj (Object Node_default))
              (set_Type ValueType_Object Node_default) = Node v arr obj ValueType_Object"
      by (simp add: set_Object_def set_Type_def Node_default_def v arr)
    have obj_call: "exec (Call_ParseObject (captured outer Undefined) Node_default (CHR ''{'' # body))
        = Some (Inr (Error_None, Node v arr obj ValueType_Object, tail))"
      using loop by (simp add: exec_ParseObject pk node)
    have ft: "follow tail" using f by (simp add: tail_def)
    have arr_call: "exec (Call_ParseArray (captured outer Error_None)
          (Node v arr obj ValueType_Object) tail)
        = Some (Inr (Undefined, Node v arr obj ValueType_Object, tail))"
      by (rule ParseArray_other) (simp add: follow_chars [OF ft])
    show ?thesis
      unfolding text_eq strip tail_def [symmetric]
      unfolding exec_Parse sk sc
      using quiet_Check [OF q]
      by (simp add: obj_call arr_call)
  qed
  then show ?thesis
    unfolding reads_node_def by blast
qed

lemma reads_all:
  "reads_node fmt L n" "reads_members fmt L ms" "reads_elements fmt L es"
proof (induction fmt L n and fmt L ms and fmt L es
    rule: print_print_members_print_elements.induct)
  case (1 fmt Level v arr obj ty)
  show ?case
  proof (cases ty)
    case ValueType_Variant
    then show ?thesis by (simp add: reads_node_scalar)
  next
    case ValueType_Array
    with 1 show ?thesis by (simp add: reads_node_array)
  next
    case ValueType_Object
    with 1 show ?thesis by (simp add: reads_node_object)
  qed
next
  case (2 fmt Level)
  show ?case by (simp add: reads_members_def)
next
  case (3 fmt Level k N ms)
  then show ?case by (simp add: reads_members_Cons)
next
  case (4 fmt Level)
  show ?case by (simp add: reads_elements_def)
next
  case (5 fmt Level E es)
  then show ?case by (simp add: reads_elements_Cons)
qed

section \<open>The parser keeps every map in key order\<close>

lemma key_ordered_iff:
  "key_ordered n \<longleftrightarrow>
     sorted_wrt (<) (map fst (Object n)) \<and> key_ordered_members (Object n)
     \<and> key_ordered_elements (Array n)"
  by (cases n) simp

lemma key_ordered_elements_snoc:
  "key_ordered_elements (es @ [E]) \<longleftrightarrow> key_ordered_elements es \<and> key_ordered E"
  by (induction es) auto

lemma key_ordered_members_assign:
  "key_ordered_members m \<Longrightarrow> key_ordered v \<Longrightarrow> key_ordered_members (map_assign k v m)"
  by (induction m) auto

lemma key_ordered_default: "key_ordered Node_default"
  by (simp add: Node_default_def)

lemma key_ordered_set:
  "key_ordered (set_Type t n) = key_ordered n"
  "key_ordered (set_Variant v n) = key_ordered n"
  "key_ordered n \<Longrightarrow> key_ordered (set_Array [] n)"
  "key_ordered n \<Longrightarrow> key_ordered (set_Object [] n)"
  "key_ordered n \<Longrightarrow> key_ordered New \<Longrightarrow> key_ordered (set_Array (Array n @ [New]) n)"
  "key_ordered n \<Longrightarrow> key_ordered New \<Longrightarrow> key_ordered (set_Object (map_assign k New (Object n)) n)"
  by (simp_all add: key_ordered_iff set_Type_def set_Variant_def set_Array_def set_Object_def
      key_ordered_elements_snoc key_ordered_members_assign sorted_map_assign)

lemma Object_set_Type: "Object (set_Type t n) = Object n" "Array (set_Type t n) = Array n"
  by (simp_all add: set_Type_def)

lemma key_ordered_ParseString:
  "ParseString n c = Inr (E, n', c') \<Longrightarrow> key_ordered n \<Longrightarrow> key_ordered n'"
  by (auto simp: ParseString_def key_ordered_set split: if_splits sum.splits)

lemma key_ordered_ParseBool:
  "ParseBool n c = Inr (E, n', c') \<Longrightarrow> key_ordered n \<Longrightarrow> key_ordered n'"
  by (auto simp: ParseBool_def Let_def key_ordered_set split: if_splits)

lemma key_ordered_ParseNull:
  "ParseNull n c = Inr (E, n', c') \<Longrightarrow> key_ordered n \<Longrightarrow> key_ordered n'"
  by (auto simp: ParseNull_def key_ordered_set split: if_splits)

lemma key_ordered_ParseNumber:
  "ParseNumber n c = Inr (E, n', c') \<Longrightarrow> key_ordered n \<Longrightarrow> key_ordered n'"
  by (auto simp: ParseNumber_def number_store_def key_ordered_set split: if_splits sum.splits)

lemma key_ordered_scalar_productions:
  assumes "key_ordered n"
  shows "scalar_productions outer n c = Inl (Inr (E, n', c')) \<Longrightarrow> key_ordered n'"
    and "scalar_productions outer n c = Inr (E, n', c') \<Longrightarrow> key_ordered n'"
proof -
  note ko = key_ordered_ParseString key_ordered_ParseBool key_ordered_ParseNull
    key_ordered_ParseNumber
  show "scalar_productions outer n c = Inl (Inr (E, n', c')) \<Longrightarrow> key_ordered n'"
    using assms
    by (auto simp: scalar_productions_def split: sum.splits if_splits) (blast dest: ko)+
  show "scalar_productions outer n c = Inr (E, n', c') \<Longrightarrow> key_ordered n'"
    using assms
    by (auto simp: scalar_productions_def split: sum.splits if_splits) (blast dest: ko)+
qed

lemma exec_key_ordered:
  assumes "exec cl = Some r"
  shows "key_ordered (call_node cl) \<longrightarrow> result_key_ordered r"
proof (rule exec.raw_induct
    [where P = "\<lambda>cl r. key_ordered (call_node cl) \<longrightarrow> result_key_ordered r", OF _ assms],
    goal_cases)
  case (1 f cl r)
  note IH = 1(1)
  have ih: "key_ordered n'" if "f x = Some (Inr (E, n', c'))" "key_ordered (call_node x)"
    for x E n' c'
    using IH [OF that(1)] that(2) by (simp add: result_key_ordered_def)
  note body = 1(2)
  show ?case
  proof (cases cl)
    case (Call_Parse outer n c)
    show ?thesis
    proof
      assume "key_ordered (call_node cl)"
      then have n: "key_ordered n" by (simp add: Call_Parse)
      show "result_key_ordered r"
      proof (cases "scalar_productions outer n (SkipSpace c)")
        case (Inl r0)
        with body Call_Parse have "r = r0" by simp
        with Inl key_ordered_scalar_productions(1) [OF n] show ?thesis
          by (auto simp: result_key_ordered_def split: sum.splits)
      next
        case (Inr s)
        obtain e4 n4 c4 where s: "s = (e4, n4, c4)" by (cases s)
        from key_ordered_scalar_productions(2) [OF n] Inr s have n4: "key_ordered n4" by blast
        from body Call_Parse Inr s obtain r5 where
          r5: "f (Call_ParseObject (captured outer e4) n4 c4) = Some r5" and
          rest5: "(case r5 of Inl u \<Rightarrow> Some (Inl u)
                 | Inr (e5, n5, c5) \<Rightarrow>
                     if Check outer e5 then Some (Inr (e5, n5, c5))
                     else Option.bind (f (Call_ParseArray (captured outer e5) n5 c5))
                       (\<lambda>r6. case r6 of Inl u \<Rightarrow> Some (Inl u)
                          | Inr (e6, n6, c6) \<Rightarrow>
                              if Check outer e6 then Some (Inr (e6, n6, c6))
                              else Some (Inr (Error_None, n6, c6)))) = Some r"
          by (auto simp: bind_eq_Some_conv)
        show ?thesis
        proof (cases r5)
          case (Inl u)
          with rest5 show ?thesis by (auto simp: result_key_ordered_def)
        next
          case (Inr t)
          obtain e5 n5 c5 where t: "t = (e5, n5, c5)" by (cases t)
          from ih [of "Call_ParseObject (captured outer e4) n4 c4" e5 n5 c5] r5 Inr t n4
          have n5: "key_ordered n5" by simp
          show ?thesis
          proof (cases "Check outer e5")
            case True
            with rest5 Inr t n5 show ?thesis by (auto simp: result_key_ordered_def)
          next
            case False
            with rest5 Inr t obtain r6 where
              r6: "f (Call_ParseArray (captured outer e5) n5 c5) = Some r6" and
              rest6: "(case r6 of Inl u \<Rightarrow> Some (Inl u)
                          | Inr (e6, n6, c6) \<Rightarrow>
                              if Check outer e6 then Some (Inr (e6, n6, c6))
                              else Some (Inr (Error_None, n6, c6))) = Some r"
              by (auto simp: bind_eq_Some_conv)
            show ?thesis
            proof (cases r6)
              case (Inl u)
              with rest6 show ?thesis by (auto simp: result_key_ordered_def)
            next
              case (Inr w)
              obtain e6 n6 c6 where w: "w = (e6, n6, c6)" by (cases w)
              from ih [of "Call_ParseArray (captured outer e5) n5 c5" e6 n6 c6] r6 Inr w n5
              have "key_ordered n6" by simp
              with rest6 Inr w show ?thesis
                by (auto simp: result_key_ordered_def split: if_splits)
            qed
          qed
        qed
      qed
    qed
  next
    case (Call_ParseObject e0 n c)
    show ?thesis
    proof
      assume "key_ordered (call_node cl)"
      then have n: "key_ordered n" by (simp add: Call_ParseObject)
      show "result_key_ordered r"
      proof (cases "peek c = CHR ''{''")
        case True
        with body Call_ParseObject have "f (Call_ObjectLoop e0 n (tl c)) = Some r" by simp
        from IH [OF this] n show ?thesis by simp
      next
        case False
        with body Call_ParseObject n show ?thesis by (auto simp: result_key_ordered_def)
      qed
    qed
  next
    case (Call_ParseArray e0 n c)
    show ?thesis
    proof
      assume "key_ordered (call_node cl)"
      then have n: "key_ordered n" by (simp add: Call_ParseArray)
      show "result_key_ordered r"
      proof (cases "peek c = CHR ''[''")
        case True
        with body Call_ParseArray have "f (Call_ArrayLoop e0 n (tl c)) = Some r" by simp
        from IH [OF this] n show ?thesis by simp
      next
        case False
        with body Call_ParseArray n show ?thesis by (auto simp: result_key_ordered_def)
      qed
    qed
  next
    case (Call_ArrayLoop e0 n c)
    show ?thesis
    proof
      assume "key_ordered (call_node cl)"
      then have n: "key_ordered n" by (simp add: Call_ArrayLoop)
      show "result_key_ordered r"
      proof (cases "peek c = NUL \<or> (Array n = [] \<and> peek (SkipSpace c) = CHR '']'')")
        case True
        with body Call_ArrayLoop n show ?thesis
          by (auto simp: result_key_ordered_def split: if_splits)
      next
        case False
        with body Call_ArrayLoop obtain r1 where
          r1: "f (Call_Parse (Some e0) Node_default (SkipSpace c)) = Some r1" and
          rest: "(case r1 of
              Inl u \<Rightarrow> Some (Inl u)
            | Inr (Err, New, c2) \<Rightarrow>
                if Err \<noteq> Error_None then Some (Inr (Err, set_Array [] n, c2))
                else if peek (SkipSpace c2) = CHR '']''
                  then Some (Inr (Error_None,
                         set_Array (Array n @ [New]) (set_Type ValueType_Array n), tl (SkipSpace c2)))
                else if peek (SkipSpace c2) \<noteq> CHR '',''
                  then Some (Inr (MissedComma, set_Array [] (set_Type ValueType_Array n), SkipSpace c2))
                else f (Call_ArrayLoop e0
                       (set_Array (Array n @ [New]) (set_Type ValueType_Array n)) (tl (SkipSpace c2))))
            = Some r"
          by (auto simp: bind_eq_Some_conv split: if_splits)
        show ?thesis
        proof (cases r1)
          case (Inl u)
          with rest show ?thesis by (auto simp: result_key_ordered_def)
        next
          case (Inr t)
          obtain Err New c2 where t: "t = (Err, New, c2)" by (cases t)
          from ih [of "Call_Parse (Some e0) Node_default (SkipSpace c)" Err New c2] r1 Inr t
          have new: "key_ordered New" by (simp add: key_ordered_default)
          let ?acc = "set_Array (Array n @ [New]) (set_Type ValueType_Array n)"
          have acc: "key_ordered ?acc"
            using key_ordered_set(5) [of "set_Type ValueType_Array n" New] n new
            by (simp add: key_ordered_set Object_set_Type)
          have clr: "key_ordered (set_Array [] n)" "key_ordered (set_Array [] (set_Type ValueType_Array n))"
            using n by (simp_all add: key_ordered_set)
          show ?thesis
          proof (cases "Err \<noteq> Error_None \<or> peek (SkipSpace c2) = CHR '']''
              \<or> peek (SkipSpace c2) \<noteq> CHR '',''")
            case True
            with rest Inr t acc clr show ?thesis
              by (auto simp: result_key_ordered_def split: if_splits)
          next
            case False
            with rest Inr t have "f (Call_ArrayLoop e0 ?acc (tl (SkipSpace c2))) = Some r"
              by simp
            from IH [OF this] acc show ?thesis by simp
          qed
        qed
      qed
    qed
  next
    case (Call_ObjectLoop e0 n c)
    show ?thesis
    proof
      assume "key_ordered (call_node cl)"
      then have n: "key_ordered n" by (simp add: Call_ObjectLoop)
      have clr: "key_ordered (set_Object [] n)" "key_ordered (set_Object [] (set_Type ValueType_Object n))"
        "key_ordered (set_Type ValueType_Object n)"
        using n by (simp_all add: key_ordered_set)
      show "result_key_ordered r"
      proof (cases "peek c = NUL \<or> peek (SkipSpace c) = CHR ''}''")
        case True
        with body Call_ObjectLoop n clr show ?thesis
          by (auto simp: result_key_ordered_def split: if_splits)
      next
        case False
        show ?thesis
        proof (cases "peek (SkipSpace c) = QUOTE")
          case other: False
          with False body Call_ObjectLoop have "f (Call_ObjectLoop e0 n (SkipSpace c)) = Some r"
            by simp
          from IH [OF this] n show ?thesis by simp
        next
          case True
          show ?thesis
          proof (cases "ExtractString (tl (SkipSpace c))")
            case (Inl u)
            with True False body Call_ObjectLoop show ?thesis
              by (auto simp: result_key_ordered_def)
          next
            case (Inr p)
            obtain Name c1 where p: "p = (Name, c1)" by (cases p)
            show ?thesis
            proof (cases "peek c1 \<noteq> QUOTE \<or> peek (SkipSpace (tl c1)) \<noteq> CHR '':''")
              case early: True
              with Inr p True False body Call_ObjectLoop clr show ?thesis
                by (auto simp: result_key_ordered_def split: if_splits)
            next
              case go: False
              with Inr p True False body Call_ObjectLoop obtain r1 where
                r1: "f (Call_Parse (Some e0) Node_default (SkipSpace (tl (SkipSpace (tl c1)))))
                     = Some r1" and
                rest: "(case r1 of
                       Inl u \<Rightarrow> Some (Inl u)
                     | Inr (Err, New, c2) \<Rightarrow>
                         if Err \<noteq> Error_None then Some (Inr (Err, set_Object [] n, c2))
                         else if peek (SkipSpace c2) = CHR ''}''
                           then Some (Inr (Error_None,
                                  set_Object (map_assign Name New (Object n)) (set_Type ValueType_Object n),
                                  tl (SkipSpace c2)))
                         else if peek (SkipSpace c2) \<noteq> CHR '',''
                           then Some (Inr (MissedComma,
                                  set_Object [] (set_Type ValueType_Object n), SkipSpace c2))
                         else f (Call_ObjectLoop e0
                                (set_Object (map_assign Name New (Object n)) (set_Type ValueType_Object n))
                                (tl (SkipSpace c2)))) = Some r"
                by (auto simp: bind_eq_Some_conv)
              show ?thesis
              proof (cases r1)
                case (Inl u)
                with rest show ?thesis by (auto simp: result_key_ordered_def)
              next
                case inr: (Inr t)
                obtain Err New c2 where t: "t = (Err, New, c2)" by (cases t)
                from ih [of "Call_Parse (Some e0) Node_default (SkipSpace (tl (SkipSpace (tl c1))))"
                    Err New c2] r1 inr t
                have new: "key_ordered New" by (simp add: key_ordered_default)
                let ?acc = "set_Object (map_assign Name New (Object n)) (set_Type ValueType_Object n)"
                have acc: "key_ordered ?acc"
                  using key_ordered_set(6) [of "set_Type ValueType_Object n" New Name] n new
                  by (simp add: key_ordered_set Object_set_Type)
                show ?thesis
                proof (cases "Err \<noteq> Error_None \<or> peek (SkipSpace c2) = CHR ''}''
                    \<or> peek (SkipSpace c2) \<noteq> CHR '',''")
                  case True
                  with rest inr t acc clr show ?thesis
                    by (auto simp: result_key_ordered_def split: if_splits)
                next
                  case False
                  with rest inr t have "f (Call_ObjectLoop e0 ?acc (tl (SkipSpace c2))) = Some r"
                    by simp
                  from IH [OF this] acc show ?thesis by simp
                qed
              qed
            qed
          qed
        qed
      qed
    qed
  qed
qed

lemma Parse_key_ordered:
  assumes "key_ordered n" "Parse outer n c = Some (Inr (E, n', c'))"
  shows "key_ordered n'"
  using exec_key_ordered [of "Call_Parse outer n c" "Inr (E, n', c')"] assms
  by (simp add: Parse_def result_key_ordered_def)

section \<open>Indexing and typed access\<close>

text \<open>
  Claim C3, as stated, fails on the code: the integer index appends one element, not the
  elements up to the index, and the element it appends is a default-constructed node, whose
  tag is object. Counterexample: on the default (empty) value the index 3 leaves an array of
  one element, the returned reference lies outside the array, so no write through it is
  defined; and the appended element is not the null scalar.
\<close>

theorem C3_counterexample:
  "length (Array (fst (subscript_int Node_default 3))) = 1
   \<and> snd (subscript_int Node_default 3) = None
   \<and> write_int Node_default 3 (Node_scalar (V_int 7)) = None
   \<and> Array (fst (subscript_int Node_default 0)) = [Node_default]
   \<and> \<not> Is T_nullptr Node_default"
  by (simp add: subscript_int_def write_int_def coerce_array_def Node_default_def Let_def
      holds_alternative_def)

text \<open>
  Claim C3, amended: for every value and the index equal to the length of its array
  payload, the integer index sets the array tag (clearing the object payload when the tag
  was another one), appends exactly one default-constructed element, which has the object
  tag and no members and is not the null scalar, and returns the reference to that element;
  a write through the reference stores the written node as the new last element.
\<close>

theorem C3_append_at_length:
  assumes "Index = int (length (Array n))"
  shows "subscript_int n Index =
           (Node (Variant n) (Array n @ [Node_default])
              (if Type n = ValueType_Array then Object n else []) ValueType_Array,
            Some (length (Array n)))
         \<and> write_int n Index v =
           Some (Node (Variant n) (Array n @ [v])
              (if Type n = ValueType_Array then Object n else []) ValueType_Array)
         \<and> Is T_Object Node_default \<and> Object Node_default = [] \<and> \<not> Is T_nullptr Node_default"
proof -
  have len: "length (Array (coerce_array n)) = length (Array n)"
    by (simp add: coerce_array_def)
  have sub: "subscript_int n Index =
           (Node (Variant n) (Array n @ [Node_default])
              (if Type n = ValueType_Array then Object n else []) ValueType_Array,
            Some (length (Array n)))"
    using assms by (cases n) (simp add: subscript_int_def coerce_array_def Let_def)
  have wr: "write_int n Index v =
           Some (Node (Variant n) (Array n @ [v])
              (if Type n = ValueType_Array then Object n else []) ValueType_Array)"
    by (simp add: write_int_def sub)
  show ?thesis
    using sub wr by (simp add: Node_default_def holds_alternative_def)
qed

theorem C3_append_at_length_witness:
  "(0::int) = int (length (Array Node_default))
   \<and> subscript_int Node_default 0 = (Node (V_string []) [Node_default] [] ValueType_Array, Some 0)
   \<and> write_int Node_default 0 (Node_scalar (V_int 7))
       = Some (Node (V_string []) [Node_scalar (V_int 7)] [] ValueType_Array)"
proof -
  have h: "(0::int) = int (length (Array Node_default))"
    by (simp add: Node_default_def)
  show ?thesis
    using h C3_append_at_length [OF h, of "Node_scalar (V_int 7)"]
    by (simp add: Node_default_def)
qed

text \<open>
  Claim C5 at a failing input. The array \<open>[1, 2]\<close> is assigned the scalar 5: the tag is
  scalar, and the array payload is still stored. The integer index 0 then sets the array tag
  without clearing the array, and returns the old first element.
\<close>

theorem C5_stale_array_after_scalar_assignment:
  "Type (assign_scalar (Node_array [Node_scalar (V_int 1), Node_scalar (V_int 2)]) (V_int 5))
     = ValueType_Variant
   \<and> Get T_Array (assign_scalar (Node_array [Node_scalar (V_int 1), Node_scalar (V_int 2)]) (V_int 5))
     = Inr (P_Array [Node_scalar (V_int 1), Node_scalar (V_int 2)])
   \<and> read_int (assign_scalar (Node_array [Node_scalar (V_int 1), Node_scalar (V_int 2)]) (V_int 5)) 0
     = Some (Node (V_int 5) [Node_scalar (V_int 1), Node_scalar (V_int 2)] [] ValueType_Array,
             Node_scalar (V_int 1))"
  by (simp add: assign_scalar_def Node_array_def read_int_def subscript_int_def coerce_array_def
      Let_def)

text \<open>
  Claim C9, as stated, fails on the code: \<open>Get\<close> does not look at the tag. Counterexample:
  a scalar node (the integer 5) is not of the array kind, and \<open>Get<Array_t>\<close> returns its
  array member without a fault; after an array is assigned to it the node is of the array
  kind and not of the integer kind, and \<open>Get<int>\<close> still returns 5 without a fault.
\<close>

theorem C9_counterexample:
  "\<not> Is T_Array (Node_scalar (V_int 5))
   \<and> Get T_Array (Node_scalar (V_int 5)) = Inr (P_Array [])
   \<and> \<not> Is T_int (assign_array (Node_scalar (V_int 5)) [])
   \<and> Get T_int (assign_array (Node_scalar (V_int 5)) []) = Inr (P_int 5)"
  by (simp add: Node_scalar_def assign_array_def)

text \<open>
  Claim C9, amended: for a scalar kind the accessor returns the stored scalar when the
  scalar payload holds the requested alternative, whatever the tag, and signals
  invalid-variant-access exactly when it holds another alternative; for the object and array
  kinds it never signals a fault and returns the stored container, whatever the tag. Whenever
  the type test holds for the requested kind, the accessor returns a payload.
\<close>

theorem C9_Get_raises_iff:
  "(Get T n = Inl bad_variant_access
      \<longleftrightarrow> T \<noteq> T_Object \<and> T \<noteq> T_Array \<and> \<not> holds_alternative T (Variant n))
   \<and> Get T_Object n = Inr (P_Object (Object n))
   \<and> Get T_Array n = Inr (P_Array (Array n))
   \<and> (Get T n = Inr (P_string s) \<longleftrightarrow> T = T_string \<and> Variant n = V_string s)
   \<and> (Get T n = Inr (P_int i) \<longleftrightarrow> T = T_int \<and> Variant n = V_int i)
   \<and> (Get T n = Inr (P_float f) \<longleftrightarrow> T = T_float \<and> Variant n = V_float f)
   \<and> (Get T n = Inr (P_bool b) \<longleftrightarrow> T = T_bool \<and> Variant n = V_bool b)
   \<and> (Get T n = Inr P_nullptr \<longleftrightarrow> T = T_nullptr \<and> Variant n = V_nullptr)
   \<and> (Is T n \<longrightarrow> (\<exists>p. Get T n = Inr p))"
  by (cases T; cases "Variant n") (simp_all add: holds_alternative_def)

theorem C9_Get_raises_iff_witness:
  "Is T_int (Node_scalar (V_int 5))
   \<and> Get T_int (Node_scalar (V_int 5)) = Inr (P_int 5)
   \<and> Get T_bool (Node_scalar (V_int 5)) = Inl bad_variant_access"
  using C9_Get_raises_iff [of T_int "Node_scalar (V_int 5)" "[]" 5 NaN True]
    C9_Get_raises_iff [of T_bool "Node_scalar (V_int 5)" "[]" 5 NaN True]
  by (simp add: Node_scalar_def holds_alternative_def)

section \<open>Parsing numbers\<close>

text \<open>
  Claim C4, as stated, fails on the code: the text \<open>42.0\<close> has the value 42, which equals
  its own rounding, so the integer alternative is stored and the node is not of the float
  kind.
\<close>

theorem C4_counterexample:
  "JSON_parse ''42.0'' = Some (Inr (Error_None, Node_scalar (V_int 42), []))
   \<and> \<not> Is T_float (Node_scalar (V_int 42))"
  by (simp add: exec_eval leaf_eval fp_eval Node_scalar_def holds_alternative_def)

text \<open>
  Claim C4, amended: parsing \<open>42\<close> yields the integer kind with value 42, parsing \<open>42.0\<close>
  yields the integer kind with value 42, and parsing \<open>4e1\<close> yields the integer kind with value
  40; in general, when \<open>ParseNumber\<close> has assembled the \<open>double\<close> value of a number, it stores
  the integer kind (the value converted to \<open>int\<close>) if the value equals its own rounding,
  and otherwise the single-precision float kind (the value converted to \<open>float\<close>).
\<close>

theorem C4_number_kind_by_value:
  "JSON_parse ''42'' = Some (Inr (Error_None, Node_scalar (V_int 42), []))
   \<and> JSON_parse ''42.0'' = Some (Inr (Error_None, Node_scalar (V_int 42), []))
   \<and> JSON_parse ''4e1'' = Some (Inr (Error_None, Node_scalar (V_int 40), []))
   \<and> (\<forall>n c Number c'.
        (peek c = CHR ''-'' \<or> isdigit (peek c)) \<and> number_value c = Inr (Inr (Number, c'))
        \<longrightarrow> ParseNumber n c =
             (if is_integral Number
              then (case int_of_double Number of
                      Inl u \<Rightarrow> Inl u
                    | Inr i \<Rightarrow> Inr (Error_None, set_Variant (V_int i) (set_Type ValueType_Variant n), c'))
              else Inr (Error_None,
                        set_Variant (V_float (to_float Number)) (set_Type ValueType_Variant n), c')))"
proof -
  have a: "JSON_parse ''42'' = Some (Inr (Error_None, Node_scalar (V_int 42), []))"
    by (simp add: exec_eval leaf_eval fp_eval Node_scalar_def)
  have b: "JSON_parse ''42.0'' = Some (Inr (Error_None, Node_scalar (V_int 42), []))"
    by (simp add: exec_eval leaf_eval fp_eval Node_scalar_def)
  have c: "JSON_parse ''4e1'' = Some (Inr (Error_None, Node_scalar (V_int 40), []))"
    by (simp add: exec_eval leaf_eval fp_eval Node_scalar_def)
  have d: "ParseNumber n c =
             (if is_integral Number
              then (case int_of_double Number of
                      Inl u \<Rightarrow> Inl u
                    | Inr i \<Rightarrow> Inr (Error_None, set_Variant (V_int i) (set_Type ValueType_Variant n), c'))
              else Inr (Error_None,
                        set_Variant (V_float (to_float Number)) (set_Type ValueType_Variant n), c'))"
    if "peek c = CHR ''-'' \<or> isdigit (peek c)" "number_value c = Inr (Inr (Number, c'))"
    for n c Number c'
    using that by (simp add: ParseNumber_def number_store_def)
  from a b c d show ?thesis by blast
qed

theorem C4_number_kind_by_value_witness:
  "isdigit (peek ''4.5'')
   \<and> number_value ''4.5'' = Inr (Inr (Finite (9 / 2), []))
   \<and> \<not> is_integral (Finite (9 / 2))
   \<and> ParseNumber Node_default ''4.5'' = Inr (Error_None, Node_scalar (V_float (Finite (9 / 2))), [])"
proof -
  have h1: "isdigit (peek ''4.5'')"
    by (simp add: peek_def isdigit_def)
  have h2: "number_value ''4.5'' = Inr (Inr (Finite (9 / 2), []))"
    by (simp add: leaf_eval fp_eval)
  have h3: "\<not> is_integral (Finite (9 / 2))"
    by (simp add: floor_rat_divide_numeral)
  have h4: "to_float (Finite (9 / 2)) = Finite (9 / 2)"
    by (simp add: fp_eval)
  from C4_number_kind_by_value have
    "(peek ''4.5'' = CHR ''-'' \<or> isdigit (peek ''4.5''))
       \<and> number_value ''4.5'' = Inr (Inr (Finite (9 / 2), []))
     \<longrightarrow> ParseNumber Node_default ''4.5'' =
           (if is_integral (Finite (9 / 2))
            then (case int_of_double (Finite (9 / 2)) of
                    Inl u \<Rightarrow> Inl u
                  | Inr i \<Rightarrow> Inr (Error_None,
                      set_Variant (V_int i) (set_Type ValueType_Variant Node_default), []))
            else Inr (Error_None,
                   set_Variant (V_float (to_float (Finite (9 / 2))))
                     (set_Type ValueType_Variant Node_default), []))"
    by blast
  with h1 h2 h3 h4 show ?thesis
    by (simp add: set_Variant_def set_Type_def Node_default_def Node_scalar_def)
qed

section \<open>Containers and faults\<close>

text \<open>
  Claim C6 on the code. The text \<open>{}\<close> gives an object with no members. The text \<open>[]\<close>
  does not give an array: the statement that should set the tag is the comparison
  \<open>Type == ValueType::Array;\<close>, so the node keeps the object tag of its constructor, it is
  not of the array kind, and the serializer writes it as an empty object and not as the
  empty array \<open>[]\<close>.
\<close>

theorem C6_empty_containers:
  "JSON_parse ''{}'' = Some (Inr (Error_None, Node_default, ''}''))
   \<and> JSON_parse ''[]'' = Some (Inr (Error_None, Node_default, '']''))
   \<and> Is T_Object Node_default \<and> Object Node_default = []
   \<and> \<not> Is T_Array Node_default
   \<and> print fmt 0 Node_default = [CHR ''{'', NEWLINE, CHR ''}'', NEWLINE]
   \<and> print fmt 0 (Node_array []) = [CHR ''['', CHR '']'', NEWLINE]"
  by (simp add: exec_eval leaf_eval Node_array_def Tabs_def)

text \<open>
  Claim C7, as stated, fails on the code: the object without its closing brace returns
  the missing-comma fault, which is neither the missing-brace fault nor \<open>Undefined\<close>, and so
  does the array without its closing bracket.
\<close>

theorem C7_counterexample:
  "JSON_parse (CHR ''{'' # QUOTE # CHR ''a'' # QUOTE # '':1'')
     = Some (Inr (MissedComma, Node_default, []))
   \<and> JSON_parse ''[1,2'' = Some (Inr (MissedComma, Node_array [], []))
   \<and> MissedComma \<noteq> MissedBrace \<and> MissedComma \<noteq> MissedBracket \<and> MissedComma \<noteq> Undefined"
  by (simp add: exec_eval leaf_eval fp_eval Node_array_def)

text \<open>
  Claim C7, amended: parsing \<open>{"a":1\<close> with no closing brace returns the missing-comma
  fault, and parsing \<open>[1,2\<close> with no closing bracket returns the missing-comma fault; in both
  cases the members read so far are discarded. (Nothing is said of a string with no closing
  quote.)
\<close>

theorem C7_unclosed_container_is_missing_comma:
  "JSON_parse (CHR ''{'' # QUOTE # CHR ''a'' # QUOTE # '':1'')
     = Some (Inr (MissedComma, Node (V_string []) [] [] ValueType_Object, []))
   \<and> JSON_parse ''[1,2'' = Some (Inr (MissedComma, Node (V_string []) [] [] ValueType_Array, []))"
  by (simp add: exec_eval leaf_eval fp_eval)

text \<open>
  A string with no closing quote: \<open>ExtractString\<close> runs past the terminator of the buffer,
  and the test that would return \<open>MissedQuot\<close> is never reached with another character than
  a quote.
\<close>

lemma unterminated_string_overread:
  "JSON_parse (QUOTE # ''abc'') = Some (Inl buffer_overread)"
  by (simp add: exec_eval leaf_eval)

lemma MissedQuot_unreachable:
  "ParseString n c \<noteq> Inr (MissedQuot, n', c')"
  by (auto simp: ParseString_def split: sum.splits dest: ExtractString_splits)

text \<open>
  Claim C2 at a failing input. In \<open>[1.]\<close> the number production of the element returns
  \<open>InvalidNumber\<close>. The \<open>Check()\<close> of the nested activation of \<open>Parse\<close> reads the \<open>Err\<close> of the
  first activation, which holds \<open>Undefined\<close>, so the nested activation goes on and returns
  \<open>Error::None\<close>; the array keeps the element, a default-constructed node, and the top-level
  parse returns no fault.
\<close>

theorem C2_member_fault_not_propagated:
  "ParseNumber Node_default ''1.]'' = Inr (InvalidNumber, Node_default, '']'')
   \<and> JSON_parse ''[1.]'' = Some (Inr (Error_None, Node_array [Node_default], []))"
  by (simp add: exec_eval leaf_eval fp_eval Node_array_def)

text \<open>
  The same for every nested activation that returns: while the \<open>Err\<close> of the first
  activation holds \<open>Error::None\<close> or \<open>Undefined\<close>, a nested \<open>Parse\<close> returns \<open>Error::None\<close>.
\<close>

lemma nested_Parse_returns_None:
  assumes "e0 = Error_None \<or> e0 = Undefined"
    and "Parse (Some e0) n c = Some (Inr (E, n', c'))"
  shows "E = Error_None"
proof -
  have chk: "\<not> Check (Some e0) e" for e
    using assms(1) by (auto simp: Check_def captured_def)
  from assms(2) show ?thesis
    unfolding Parse_def exec_Parse
    by (auto simp: chk scalar_productions_def split: sum.splits option.splits if_splits)
qed

section \<open>The cursor after a production\<close>

text \<open>
  Claim C10, as stated, fails on the code: the object production on \<open>{}\<close> is not the only
  successful production that leaves its closing character unread. Counterexample: the array
  production on \<open>[]\<close> returns no fault with the cursor at the closing bracket.
\<close>

theorem C10_counterexample:
  "ParseArray Undefined Node_default ''[]'' = Some (Inr (Error_None, Node_default, '']''))
   \<and> '']'' \<noteq> ([] :: string)"
  by (simp add: exec_eval leaf_eval)

text \<open>
  Claim C10, amended: when the object sub-parser succeeds on the two-character input
  \<open>{}\<close> it returns no fault with the cursor advanced past the opening brace only, so the
  cursor is at the closing brace; the array sub-parser does the same on \<open>[]\<close> (for a node
  with no elements, the cursor stays at the closing bracket). A successful string, boolean,
  null or number production leaves the cursor directly behind the text it matched, and on
  \<open>{"a":1}\<close> and \<open>[1]\<close> the object and array sub-parsers leave it behind the closing brace
  and bracket.
\<close>

theorem C10_cursor_after_production:
  "ParseObject e0 n ''{}'' = Some (Inr (Error_None, set_Type ValueType_Object n, ''}''))
   \<and> (Array n = [] \<longrightarrow> ParseArray e0 n ''[]'' = Some (Inr (Error_None, n, '']'')))
   \<and> (ParseString n c = Inr (Error_None, n', c')
        \<longrightarrow> (\<exists>S. c = QUOTE # S @ QUOTE # c' \<and> QUOTE \<notin> set S))
   \<and> (ParseBool n c = Inr (Error_None, n', c') \<longrightarrow> c = ''true'' @ c' \<or> c = ''false'' @ c')
   \<and> (ParseNull n c = Inr (Error_None, n', c') \<longrightarrow> c = ''null'' @ c')
   \<and> (ParseNumber n c = Inr (Error_None, n', c')
        \<longrightarrow> (\<exists>t. c = t @ c' \<and> t \<noteq> [] \<and> (\<forall>x\<in>set t. numchar x) \<and> \<not> isdigit (peek c')))
   \<and> ParseObject Undefined Node_default (CHR ''{'' # QUOTE # CHR ''a'' # QUOTE # '':1}'')
       = Some (Inr (Error_None,
           Node (V_string []) [] [(''a'', Node_scalar (V_int 1))] ValueType_Object, []))
   \<and> ParseArray Undefined Node_default ''[1]''
       = Some (Inr (Error_None, Node_array [Node_scalar (V_int 1)], []))"
proof -
  have a: "ParseObject e0 n ''{}'' = Some (Inr (Error_None, set_Type ValueType_Object n, ''}''))"
    by (simp add: exec_eval peek_def isspace_def)
  have b: "Array n = [] \<longrightarrow> ParseArray e0 n ''[]'' = Some (Inr (Error_None, n, '']''))"
    by (simp add: exec_eval peek_def isspace_def)
  have s: "ParseString n c = Inr (Error_None, n', c')
        \<longrightarrow> (\<exists>S. c = QUOTE # S @ QUOTE # c' \<and> QUOTE \<notin> set S)"
    using ParseString_consumes [of n c n' c'] by blast
  have t: "ParseBool n c = Inr (Error_None, n', c') \<longrightarrow> c = ''true'' @ c' \<or> c = ''false'' @ c'"
    using ParseBool_consumes [of n c n' c'] by blast
  have u: "ParseNull n c = Inr (Error_None, n', c') \<longrightarrow> c = ''null'' @ c'"
    using ParseNull_consumes [of n c n' c'] by blast
  have v: "ParseNumber n c = Inr (Error_None, n', c')
        \<longrightarrow> (\<exists>t. c = t @ c' \<and> t \<noteq> [] \<and> (\<forall>x\<in>set t. numchar x) \<and> \<not> isdigit (peek c'))"
    using ParseNumber_consumes [of n c n' c'] by blast
  have w: "ParseObject Undefined Node_default (CHR ''{'' # QUOTE # CHR ''a'' # QUOTE # '':1}'')
       = Some (Inr (Error_None,
           Node (V_string []) [] [(''a'', Node_scalar (V_int 1))] ValueType_Object, []))"
    by (simp add: exec_eval leaf_eval fp_eval Node_scalar_def)
  have x: "ParseArray Undefined Node_default ''[1]''
       = Some (Inr (Error_None, Node_array [Node_scalar (V_int 1)], []))"
    by (simp add: exec_eval leaf_eval fp_eval Node_scalar_def Node_array_def)
  from a b s t u v w x show ?thesis by blast
qed

theorem C10_cursor_after_production_witness:
  "Array Node_default = []
   \<and> ParseArray Undefined Node_default ''[]'' = Some (Inr (Error_None, Node_default, '']''))
   \<and> ParseNull Node_default ''null,'' = Inr (Error_None, Node_scalar V_nullptr, '','')
   \<and> ''null,'' = ''null'' @ '',''"
proof -
  have h1: "Array Node_default = []"
    by (simp add: Node_default_def)
  have h2: "ParseNull Node_default ''null,'' = Inr (Error_None, Node_scalar V_nullptr, '','')"
    by (simp add: leaf_eval Node_scalar_def)
  from h1 h2
    C10_cursor_after_production [of Undefined Node_default "''null,''" "Node_scalar V_nullptr" "'',''"]
  show ?thesis by simp
qed

section \<open>Key order\<close>

text \<open>
  Claim C8: the members of an object are serialized in increasing key order, whatever the
  order in which they were inserted or parsed. Every sequence of assignments to an empty
  map gives a map in strictly increasing key order, and an assignment keeps a map in that
  order; every tree the top-level parse returns has all its maps in that order; and for a
  map in that order the serializer writes the member with the smaller key before the member
  with the greater key. In particular \<open>{"b":1,"a":2}\<close> parses to the map with \<open>a\<close> before
  \<open>b\<close>, and its text has the key \<open>a\<close> first.
\<close>

theorem C8_members_in_key_order:
  "sorted_wrt (<) (map fst (insert_all kvs))
   \<and> (sorted_wrt (<) (map fst m) \<longrightarrow> sorted_wrt (<) (map fst (map_assign k v m)))
   \<and> (JSON_parse Str = Some (Inr (E, tree, c))
        \<longrightarrow> key_ordered tree \<and> sorted_wrt (<) (map fst (Object tree)))
   \<and> (sorted_wrt (<) (map fst m) \<and> i < j \<and> j < length m
        \<longrightarrow> fst (m ! i) < fst (m ! j)
            \<and> (\<exists>pre mid post. print fmt L (Node var arr m ValueType_Object) =
                 pre @ member_text fmt (Suc L) (m ! i) @ mid @ member_text fmt (Suc L) (m ! j) @ post))
   \<and> JSON_parse (CHR ''{'' # QUOTE # CHR ''b'' # QUOTE # '':1,'' @ QUOTE # CHR ''a'' # QUOTE # '':2}'')
       = Some (Inr (Error_None,
           Node (V_string []) []
             [(''a'', Node_scalar (V_int 2)), (''b'', Node_scalar (V_int 1))] ValueType_Object, []))
   \<and> print fmt 0 (Node (V_string []) []
             [(''a'', Node_scalar (V_int 2)), (''b'', Node_scalar (V_int 1))] ValueType_Object)
       = CHR ''{'' # NEWLINE # TAB # QUOTE # CHR ''a'' # QUOTE # '': 2,''
         @ NEWLINE # TAB # QUOTE # CHR ''b'' # QUOTE # '': 1'' @ NEWLINE # CHR ''}'' # [NEWLINE]"
proof -
  have a: "sorted_wrt (<) (map fst (insert_all kvs))"
    by (rule sorted_insert_all)
  have b: "sorted_wrt (<) (map fst m) \<longrightarrow> sorted_wrt (<) (map fst (map_assign k v m))"
    by (simp add: sorted_map_assign)
  have p: "key_ordered tree \<and> sorted_wrt (<) (map fst (Object tree))"
    if "JSON_parse Str = Some (Inr (E, tree, c))"
  proof -
    from that have "Parse None Node_default Str = Some (Inr (E, tree, c))"
      by (simp add: JSON_parse_def)
    from Parse_key_ordered [OF key_ordered_default this] show ?thesis
      by (simp add: key_ordered_iff [of tree])
  qed
  have c: "fst (m ! i) < fst (m ! j)
            \<and> (\<exists>pre mid post. print fmt L (Node var arr m ValueType_Object) =
                 pre @ member_text fmt (Suc L) (m ! i) @ mid @ member_text fmt (Suc L) (m ! j) @ post)"
    if h: "sorted_wrt (<) (map fst m)" "i < j" "j < length m"
  proof -
    from h have "i < length m" by simp
    have "map fst m ! i < map fst m ! j"
      using sorted_wrt_nth_less [OF h(1) h(2)] h(3) by simp
    with h \<open>i < length m\<close> have "fst (m ! i) < fst (m ! j)" by simp
    with print_object_two [OF h(2) h(3)] show ?thesis by blast
  qed
  have d: "JSON_parse (CHR ''{'' # QUOTE # CHR ''b'' # QUOTE # '':1,'' @ QUOTE # CHR ''a'' # QUOTE # '':2}'')
       = Some (Inr (Error_None,
           Node (V_string []) []
             [(''a'', Node_scalar (V_int 2)), (''b'', Node_scalar (V_int 1))] ValueType_Object, []))"
    by (simp add: exec_eval leaf_eval fp_eval Node_scalar_def)
  have e: "print fmt 0 (Node (V_string []) []
             [(''a'', Node_scalar (V_int 2)), (''b'', Node_scalar (V_int 1))] ValueType_Object)
       = CHR ''{'' # NEWLINE # TAB # QUOTE # CHR ''a'' # QUOTE # '': 2,''
         @ NEWLINE # TAB # QUOTE # CHR ''b'' # QUOTE # '': 1'' @ NEWLINE # CHR ''}'' # [NEWLINE]"
    by (simp add: Node_scalar_def Tabs_def show_int_def show_nat.simps digit_char_def)
  from a b p c d e show ?thesis by blast
qed

theorem C8_members_in_key_order_witness:
  "sorted_wrt (<) (map fst [(''a'', Node_scalar (V_int 2)), (''b'', Node_scalar (V_int 1))])
   \<and> (0::nat) < 1 \<and> 1 < length [(''a'', Node_scalar (V_int 2)), (''b'', Node_scalar (V_int 1))]
   \<and> ''a'' < ''b''
   \<and> insert_all [(''b'', Node_scalar (V_int 1)), (''a'', Node_scalar (V_int 2))]
       = [(''a'', Node_scalar (V_int 2)), (''b'', Node_scalar (V_int 1))]
   \<and> JSON_parse (CHR ''{'' # QUOTE # CHR ''b'' # QUOTE # '':1,'' @ QUOTE # CHR ''a'' # QUOTE # '':2}'')
       = Some (Inr (Error_None,
           Node (V_string []) []
             [(''a'', Node_scalar (V_int 2)), (''b'', Node_scalar (V_int 1))] ValueType_Object, []))
   \<and> key_ordered (Node (V_string []) []
             [(''a'', Node_scalar (V_int 2)), (''b'', Node_scalar (V_int 1))] ValueType_Object)
   \<and> (\<exists>pre mid post.
         print no_float_text 0 (Node (V_string []) []
             [(''a'', Node_scalar (V_int 2)), (''b'', Node_scalar (V_int 1))] ValueType_Object) =
         pre @ member_text no_float_text 1 (''a'', Node_scalar (V_int 2)) @ mid
           @ member_text no_float_text 1 (''b'', Node_scalar (V_int 1)) @ post)"
proof -
  have h: "sorted_wrt (<) (map fst [(''a'', Node_scalar (V_int 2)), (''b'', Node_scalar (V_int 1))])"
    by simp
  have ins: "insert_all [(''b'', Node_scalar (V_int 1)), (''a'', Node_scalar (V_int 2))]
       = [(''a'', Node_scalar (V_int 2)), (''b'', Node_scalar (V_int 1))]"
    by (simp add: insert_all_def)
  have ps: "JSON_parse (CHR ''{'' # QUOTE # CHR ''b'' # QUOTE # '':1,'' @ QUOTE # CHR ''a'' # QUOTE # '':2}'')
       = Some (Inr (Error_None,
           Node (V_string []) []
             [(''a'', Node_scalar (V_int 2)), (''b'', Node_scalar (V_int 1))] ValueType_Object, []))"
    by (simp add: exec_eval leaf_eval fp_eval Node_scalar_def)
  from h ins ps
    C8_members_in_key_order [of "[]" "[(''a'', Node_scalar (V_int 2)), (''b'', Node_scalar (V_int 1))]"
      "''a''" "Node_default"
      "CHR ''{'' # QUOTE # CHR ''b'' # QUOTE # '':1,'' @ QUOTE # CHR ''a'' # QUOTE # '':2}''"
      Error_None
      "Node (V_string []) []
             [(''a'', Node_scalar (V_int 2)), (''b'', Node_scalar (V_int 1))] ValueType_Object"
      "[]" 0 1 no_float_text 0 "V_string []" "[]"]
  show ?thesis by simp
qed

section \<open>Round trip\<close>

text \<open>
  Claim C1, as stated, fails on the code. Neither the serializer nor the parser knows an
  escape, so a string that holds a double quote is cut at it: the string \<open>a"b\<close> is written
  as \<open>"a"b"\<close> and read back as the string \<open>a\<close>. And the empty array is written as \<open>[]\<close> and
  read back as a node with the object tag.
\<close>

theorem C1_counterexample:
  "print no_float_text 0 (Node_scalar (V_string [CHR ''a'', QUOTE, CHR ''b'']))
     = [QUOTE, CHR ''a'', QUOTE, CHR ''b'', QUOTE, NEWLINE]
   \<and> JSON_parse [QUOTE, CHR ''a'', QUOTE, CHR ''b'', QUOTE, NEWLINE]
     = Some (Inr (Error_None, Node_scalar (V_string ''a''), [CHR ''b'', QUOTE, NEWLINE]))
   \<and> Node_scalar (V_string ''a'') \<noteq> Node_scalar (V_string [CHR ''a'', QUOTE, CHR ''b''])
   \<and> print no_float_text 0 (Node_array []) = [CHR ''['', CHR '']'', NEWLINE]
   \<and> JSON_parse [CHR ''['', CHR '']'', NEWLINE]
     = Some (Inr (Error_None, Node_default, [CHR '']'', NEWLINE]))
   \<and> Node_default \<noteq> Node_array []"
  by (simp add: exec_eval leaf_eval Node_scalar_def Node_array_def)

text \<open>
  Claim C1, amended: for every tree built by the constructors from integers other than the
  least \<open>int\<close>, booleans, null, strings with no double quote, and non-empty arrays and
  non-empty objects of such trees whose keys hold no double quote, the text the serializer
  writes for the tree is parsed (by the first top-level parse, into a default-constructed
  node) without a fault to a tree equal to the original in tag, payload and children; the
  cursor is left at the final newline of the text. Floats and empty containers are not
  covered.
\<close>

theorem C1_roundtrip_plain:
  assumes "plain n"
  shows "JSON_parse (print fmt 0 n) = Some (Inr (Error_None, n, [NEWLINE]))"
  using reads_nodeD [where outer = None and r = "[]" and L = 0 and fmt = fmt, OF reads_all(1) assms]
  by (simp add: JSON_parse_def Parse_def quiet_def follow_simps)

theorem C1_roundtrip_plain_witness:
  "plain (Node_array [Node_scalar (V_int (- 12)),
       Node (V_string []) [] [(''a'', Node_scalar (V_bool True)), (''b'', Node_scalar (V_string ''x''))]
         ValueType_Object])
   \<and> JSON_parse (print no_float_text 0
       (Node_array [Node_scalar (V_int (- 12)),
          Node (V_string []) [] [(''a'', Node_scalar (V_bool True)), (''b'', Node_scalar (V_string ''x''))]
            ValueType_Object]))
     = Some (Inr (Error_None,
         Node_array [Node_scalar (V_int (- 12)),
           Node (V_string []) [] [(''a'', Node_scalar (V_bool True)), (''b'', Node_scalar (V_string ''x''))]
             ValueType_Object],
         [NEWLINE]))"
proof -
  have h: "plain (Node_array [Node_scalar (V_int (- 12)),
       Node (V_string []) [] [(''a'', Node_scalar (V_bool True)), (''b'', Node_scalar (V_string ''x''))]
         ValueType_Object])"
    by (simp add: Node_array_def Node_scalar_def INT_MIN_def INT_MAX_def)
  from h C1_roundtrip_plain [OF h, of no_float_text] show ?thesis
    by simp
qed

end
